theory Spec2Isabelle
  imports Complex_Main "HOL-Library.Log_Nat"
begin

section \<open>Numbers\<close>

text \<open>
  The exchange computes with JavaScript numbers, which are IEEE 754 doubles: a finite
  double is a rational \<open>m * 2^(e - 52)\<close> with \<open>|m| \<le> 2^53\<close> and \<open>-1022 \<le> e \<le> 1023\<close>, and
  every arithmetic operation returns the double nearest to the exact result, the one with
  an even \<open>m\<close> when two are equally near, and an infinity when that double would be
  \<open>2^1024\<close> or more. A division by zero or the square root of a negative number does not
  throw: it yields \<^verbatim>\<open>Infinity\<close>, \<^verbatim>\<open>-Infinity\<close> or \<^verbatim>\<open>NaN\<close>.

  A number is modelled by its value: \<open>Fin q\<close> for the finite double of value \<open>q\<close>, and the
  three special values. The zero of negative sign is not told apart from \<open>0\<close>. The function
  \<open>dbl\<close> is the rounding; \<open>fadd\<close>, \<open>fsub\<close>, \<open>fmul\<close>, \<open>fdiv\<close> and \<open>fsqrt\<close> are the exact
  operations followed by it. A number that enters the program as a decimal literal or as
  text (a weight \<^verbatim>\<open>1.3\<close>, a threshold \<^verbatim>\<open>0.3\<close>, a quantity in a request) is given as a
  rational \<open>q\<close> and read as \<open>dbl q\<close>, the double the parser produces.
\<close>

datatype 'a xnum = Fin 'a | PInf | NInf | NaN

type_synonym number = "rat xnum"

abbreviation whole :: "int \<Rightarrow> number" where
  \<comment> \<open>the number whose value is the integer \<open>n\<close>\<close>
  "whole n \<equiv> Fin (of_int n)"

definition ilog2 :: "rat \<Rightarrow> int" where
  \<comment> \<open>for \<open>x > 0\<close>, the exponent \<open>e\<close> with \<open>2^e \<le> x < 2^(e + 1)\<close>\<close>
  "ilog2 x = (if 1 \<le> x then bitlen \<lfloor>x\<rfloor> - 1 else - bitlen (\<lceil>1 / x\<rceil> - 1))"

definition round_even :: "rat \<Rightarrow> int" where
  \<comment> \<open>the nearest integer, the even one of two equally near\<close>
  "round_even t =
     (if t - of_int \<lfloor>t\<rfloor> < 1 / 2 then \<lfloor>t\<rfloor>
      else if 1 / 2 < t - of_int \<lfloor>t\<rfloor> then \<lfloor>t\<rfloor> + 1
      else if even \<lfloor>t\<rfloor> then \<lfloor>t\<rfloor> else \<lfloor>t\<rfloor> + 1)"

definition ulp :: "rat \<Rightarrow> rat" where
  \<comment> \<open>the distance between neighbouring doubles at \<open>x > 0\<close>; it is \<open>2^(-1074)\<close> below \<open>2^(-1022)\<close>\<close>
  "ulp x = 2 powi (max (ilog2 x) (- 1022) - 52)"

definition round_pos :: "rat \<Rightarrow> number" where
  "round_pos x =
     (if of_int (round_even (x / ulp x)) * ulp x < 2 ^ 1024
      then Fin (of_int (round_even (x / ulp x)) * ulp x) else PInf)"

fun xneg :: "number \<Rightarrow> number" where
  \<comment> \<open>\<^verbatim>\<open>-x\<close>\<close>
  "xneg (Fin a) = Fin (- a)"
| "xneg PInf = NInf"
| "xneg NInf = PInf"
| "xneg NaN = NaN"

definition dbl :: "rat \<Rightarrow> number" where
  \<comment> \<open>the double nearest to \<open>x\<close>\<close>
  "dbl x = (if 0 < x then round_pos x else if x < 0 then xneg (round_pos (- x)) else Fin 0)"

fun sign_of :: "number \<Rightarrow> int" where
  "sign_of (Fin a) = (if 0 < a then 1 else if a < 0 then - 1 else 0)"
| "sign_of PInf = 1"
| "sign_of NInf = - 1"
| "sign_of NaN = 0"

fun fadd :: "number \<Rightarrow> number \<Rightarrow> number" where
  \<comment> \<open>\<^verbatim>\<open>x + y\<close>\<close>
  "fadd (Fin a) (Fin b) = dbl (a + b)"
| "fadd NaN y = NaN"
| "fadd x NaN = NaN"
| "fadd PInf NInf = NaN"
| "fadd NInf PInf = NaN"
| "fadd PInf y = PInf"
| "fadd x PInf = PInf"
| "fadd NInf y = NInf"
| "fadd x NInf = NInf"

definition fsub :: "number \<Rightarrow> number \<Rightarrow> number" where
  \<comment> \<open>\<^verbatim>\<open>x - y\<close>\<close>
  "fsub x y = fadd x (xneg y)"

fun fmul :: "number \<Rightarrow> number \<Rightarrow> number" where
  \<comment> \<open>\<^verbatim>\<open>x * y\<close>; an infinity times \<open>0\<close> is \<^verbatim>\<open>NaN\<close>\<close>
  "fmul (Fin a) (Fin b) = dbl (a * b)"
| "fmul NaN y = NaN"
| "fmul x NaN = NaN"
| "fmul x y = (if sign_of x * sign_of y = 0 then NaN
               else if 0 < sign_of x * sign_of y then PInf else NInf)"

fun fdiv :: "number \<Rightarrow> number \<Rightarrow> number" where
  \<comment> \<open>\<^verbatim>\<open>x / y\<close>\<close>
  "fdiv (Fin a) (Fin b) =
     (if b \<noteq> 0 then dbl (a / b) else if 0 < a then PInf else if a < 0 then NInf else NaN)"
| "fdiv NaN y = NaN"
| "fdiv x NaN = NaN"
| "fdiv (Fin a) y = Fin 0"
| "fdiv x (Fin b) = (if (0 \<le> b) = (x = PInf) then PInf else NInf)"
| "fdiv x y = NaN"

fun ffloor :: "number \<Rightarrow> number" where
  \<comment> \<open>\<^verbatim>\<open>Math.floor(x)\<close>\<close>
  "ffloor (Fin a) = Fin (of_int \<lfloor>a\<rfloor>)"
| "ffloor x = x"

fun flt :: "number \<Rightarrow> number \<Rightarrow> bool" where
  \<comment> \<open>\<^verbatim>\<open>x < y\<close>; every comparison with \<^verbatim>\<open>NaN\<close> is false\<close>
  "flt (Fin a) (Fin b) = (a < b)"
| "flt NaN y = False"
| "flt x NaN = False"
| "flt x NInf = False"
| "flt PInf y = False"
| "flt NInf y = True"
| "flt x PInf = True"

abbreviation fgt :: "number \<Rightarrow> number \<Rightarrow> bool" where
  \<comment> \<open>\<^verbatim>\<open>x > y\<close>\<close>
  "fgt x y \<equiv> flt y x"

definition feq :: "number \<Rightarrow> number \<Rightarrow> bool" where
  \<comment> \<open>\<^verbatim>\<open>x === y\<close>\<close>
  "feq x y \<longleftrightarrow> x \<noteq> NaN \<and> x = y"

definition fle :: "number \<Rightarrow> number \<Rightarrow> bool" where
  \<comment> \<open>\<^verbatim>\<open>x <= y\<close>\<close>
  "fle x y \<longleftrightarrow> flt x y \<or> feq x y"

definition fmin :: "number \<Rightarrow> number \<Rightarrow> number" where
  \<comment> \<open>\<^verbatim>\<open>Math.min(x, y)\<close>\<close>
  "fmin x y = (if x = NaN \<or> y = NaN then NaN else if flt y x then y else x)"

definition for_else :: "number \<Rightarrow> number \<Rightarrow> number" where
  \<comment> \<open>\<^verbatim>\<open>x || d\<close>: the numbers \<open>0\<close> and \<^verbatim>\<open>NaN\<close> are falsy\<close>
  "for_else x d = (if x = Fin 0 \<or> x = NaN then d else x)"

function sqrt_search :: "int \<Rightarrow> int \<Rightarrow> int \<Rightarrow> int" where
  \<comment> \<open>the largest \<open>r\<close> in \<open>[lo, hi)\<close> with \<open>r * r \<le> n\<close>, by bisection\<close>
  "sqrt_search lo hi n =
     (if hi \<le> lo + 1 then lo
      else if ((lo + hi) div 2) * ((lo + hi) div 2) \<le> n
           then sqrt_search ((lo + hi) div 2) hi n
           else sqrt_search lo ((lo + hi) div 2) n)"
  by pat_completeness auto
termination
  by (relation "measure (\<lambda>(lo, hi, n). nat (hi - lo))") auto

definition isqrt :: "int \<Rightarrow> int" where
  \<comment> \<open>the integer square root of \<open>n \<ge> 0\<close>\<close>
  "isqrt n = sqrt_search 0 (n + 1) n"

definition sqrt_pos :: "rat \<Rightarrow> rat" where
  \<comment> \<open>the double nearest to the square root of \<open>x > 0\<close>: with \<open>2^e \<le> sqrt x < 2^(e + 1)\<close> and
      \<open>q = 2^(e - 52)\<close>, the integer nearest to \<open>sqrt (x / q^2)\<close>, times \<open>q\<close>\<close>
  "sqrt_pos x =
     (let q = 2 powi (ilog2 x div 2 - 52);
          n = x / (q * q);
          f = isqrt \<lfloor>n\<rfloor>;
          h = (of_int f + 1 / 2) * (of_int f + 1 / 2)
      in of_int (if n < h then f else if h < n then f + 1 else if even f then f else f + 1) * q)"

fun fsqrt :: "number \<Rightarrow> number" where
  \<comment> \<open>\<^verbatim>\<open>Math.sqrt(x)\<close>\<close>
  "fsqrt (Fin a) = (if a < 0 then NaN else if a = 0 then Fin 0 else Fin (sqrt_pos a))"
| "fsqrt PInf = PInf"
| "fsqrt x = NaN"

definition safe :: "int \<Rightarrow> bool" where
  \<comment> \<open>\<^verbatim>\<open>Number.isSafeInteger\<close>: the integers on which the arithmetic of doubles is exact\<close>
  "safe n \<longleftrightarrow> - (2 ^ 53) < n \<and> n < 2 ^ 53"

section \<open>The DEX engine: liquidity pools\<close>

text \<open>
  \<^verbatim>\<open>class LiquidityPool\<close> of \<^verbatim>\<open>dex-engine.js\<close>. The pool id is
  \<open>tokenA-tokenB\<close>; the creation time, the time stamps and the hash of a receipt are
  left out. A method that mutates the pool is a function from the pool to the result and
  the pool after the call; a \<^verbatim>\<open>throw\<close> is an \<open>Inl\<close> result. Reserves, shares and
  amounts are numbers, as in the code: the callers pass integers, and nothing in the class
  keeps a reserve finite or below \<open>2^53\<close>.
\<close>

datatype dex_error =
    InsufficientLp   \<comment> \<open>\<^verbatim>\<open>LP share shortage\<close>, thrown by \<^verbatim>\<open>removeLiquidity\<close>\<close>
  | NoLiquidity      \<comment> \<open>a reserve is zero, thrown by the swaps\<close>
  | ZeroOutput       \<comment> \<open>\<^verbatim>\<open>amountOut <= 0\<close>, thrown by the swaps\<close>

record pool =
  tokenA :: string
  tokenB :: string
  reserveA :: number
  reserveB :: number
  k :: number
  feeBps :: number
  totalLpShares :: number
  lpHolders :: "string \<rightharpoonup> number"
  volume24h :: number
  feesCollected :: number
  swapCount :: number
  priceHistory :: "number list"
  tritState :: int

record lp_receipt =
  lp_provider :: string
  lp_amountA :: number
  lp_amountB :: number
  lp_shares :: number
  lp_action :: string

record swap_receipt =
  tokenIn :: string
  tokenOut :: string
  amountIn :: number
  amountOut :: number
  fee :: number
  impact :: number
  swap_trit :: int

definition new_pool :: "string \<Rightarrow> string \<Rightarrow> number \<Rightarrow> pool" where
  \<comment> \<open>the constructor\<close>
  "new_pool ta tb f =
     \<lparr>tokenA = ta, tokenB = tb, reserveA = Fin 0, reserveB = Fin 0, k = Fin 0, feeBps = f,
      totalLpShares = Fin 0, lpHolders = Map.empty, volume24h = Fin 0, feesCollected = Fin 0,
      swapCount = Fin 0, priceHistory = [], tritState = 0\<rparr>"

definition priceAinB :: "pool \<Rightarrow> number" where
  "priceAinB p = (if feq (reserveA p) (Fin 0) then Fin 0 else fdiv (reserveB p) (reserveA p))"

definition recordPrice :: "pool \<Rightarrow> pool" where
  "recordPrice p =
     (let h = priceHistory p @ [priceAinB p]
      in p\<lparr>priceHistory := (if length h > 1000 then tl h else h)\<rparr>)"

definition held :: "pool \<Rightarrow> string \<Rightarrow> number" where
  \<comment> \<open>\<^verbatim>\<open>this.lpHolders[provider] || 0\<close>\<close>
  "held p provider = (case lpHolders p provider of None \<Rightarrow> Fin 0 | Some h \<Rightarrow> for_else h (Fin 0))"

definition addLiquidity :: "pool \<Rightarrow> string \<Rightarrow> number \<Rightarrow> number \<Rightarrow> lp_receipt \<times> pool" where
  "addLiquidity p provider amtA amtB =
     (let shares =
            (if feq (totalLpShares p) (Fin 0) then ffloor (fsqrt (fmul amtA amtB))
             else fmin (ffloor (fdiv (fmul amtA (totalLpShares p)) (reserveA p)))
                       (ffloor (fdiv (fmul amtB (totalLpShares p)) (reserveB p))));
          newA = fadd (reserveA p) amtA;
          newB = fadd (reserveB p) amtB
      in (\<lparr>lp_provider = provider, lp_amountA = amtA, lp_amountB = amtB,
            lp_shares = shares, lp_action = ''add''\<rparr>,
          recordPrice (p\<lparr>reserveA := newA, reserveB := newB, k := fmul newA newB,
                         totalLpShares := fadd (totalLpShares p) shares,
                         lpHolders := (lpHolders p)(provider \<mapsto> fadd (held p provider) shares),
                         tritState := 1\<rparr>)))"

definition removeLiquidity :: "pool \<Rightarrow> string \<Rightarrow> number \<Rightarrow> (dex_error + lp_receipt) \<times> pool" where
  \<comment> \<open>for a provider without an entry \<^verbatim>\<open>this.lpHolders[provider] -= shares\<close> stores
      \<^verbatim>\<open>undefined - shares\<close>, which is \<^verbatim>\<open>NaN\<close>\<close>
  "removeLiquidity p provider s =
     (if flt (held p provider) s then (Inl InsufficientLp, p)
      else let a = ffloor (fdiv (fmul s (reserveA p)) (totalLpShares p));
               b = ffloor (fdiv (fmul s (reserveB p)) (totalLpShares p));
               newA = fsub (reserveA p) a;
               newB = fsub (reserveB p) b
           in (Inr \<lparr>lp_provider = provider, lp_amountA = a, lp_amountB = b,
                     lp_shares = s, lp_action = ''remove''\<rparr>,
               recordPrice (p\<lparr>reserveA := newA, reserveB := newB, k := fmul newA newB,
                              totalLpShares := fsub (totalLpShares p) s,
                              lpHolders := (lpHolders p)(provider \<mapsto>
                                 (case lpHolders p provider of
                                    None \<Rightarrow> NaN | Some h \<Rightarrow> fsub h s))\<rparr>)))"

definition impact_trit :: "number \<Rightarrow> int" where
  \<comment> \<open>\<^verbatim>\<open>impact < 0.01 ? 1 : impact < 0.05 ? 0 : -1\<close>\<close>
  "impact_trit i = (if flt i (dbl (1 / 100)) then 1 else if flt i (dbl (5 / 100)) then 0 else - 1)"

definition swapAtoB :: "pool \<Rightarrow> number \<Rightarrow> (dex_error + swap_receipt) \<times> pool" where
  "swapAtoB p amt =
     (if feq (reserveA p) (Fin 0) \<or> feq (reserveB p) (Fin 0) then (Inl NoLiquidity, p)
      else let fee' = ffloor (fdiv (fmul amt (feeBps p)) (Fin 10000));
               afterFee = fsub amt fee';
               newA = fadd (reserveA p) afterFee;
               newB = ffloor (fdiv (k p) newA);
               out = fsub (reserveB p) newB
           in if fle out (Fin 0) then (Inl ZeroOutput, p)
              else let imp = fsub (Fin 1) (fdiv (fmul newB (reserveA p)) (fmul (reserveB p) newA))
                   in (Inr \<lparr>tokenIn = tokenA p, tokenOut = tokenB p, amountIn = amt,
                             amountOut = out, fee = fee', impact = imp,
                             swap_trit = impact_trit imp\<rparr>,
                       recordPrice (p\<lparr>reserveA := newA, reserveB := newB,
                                      k := fmul newA newB,
                                      feesCollected := fadd (feesCollected p) fee',
                                      volume24h := fadd (volume24h p) amt,
                                      swapCount := fadd (swapCount p) (Fin 1)\<rparr>)))"

definition swapBtoA :: "pool \<Rightarrow> number \<Rightarrow> (dex_error + swap_receipt) \<times> pool" where
  "swapBtoA p amt =
     (if feq (reserveA p) (Fin 0) \<or> feq (reserveB p) (Fin 0) then (Inl NoLiquidity, p)
      else let fee' = ffloor (fdiv (fmul amt (feeBps p)) (Fin 10000));
               afterFee = fsub amt fee';
               newB = fadd (reserveB p) afterFee;
               newA = ffloor (fdiv (k p) newB);
               out = fsub (reserveA p) newA
           in if fle out (Fin 0) then (Inl ZeroOutput, p)
              else let imp = fsub (Fin 1) (fdiv (fmul newA (reserveB p)) (fmul (reserveA p) newB))
                   in (Inr \<lparr>tokenIn = tokenB p, tokenOut = tokenA p, amountIn = amt,
                             amountOut = out, fee = fee', impact = imp,
                             swap_trit = impact_trit imp\<rparr>,
                       recordPrice (p\<lparr>reserveA := newA, reserveB := newB,
                                      k := fmul newA newB,
                                      feesCollected := fadd (feesCollected p) fee',
                                      volume24h := fadd (volume24h p) amt,
                                      swapCount := fadd (swapCount p) (Fin 1)\<rparr>)))"

section \<open>The DEX engine: the order book\<close>

text \<open>
  \<^verbatim>\<open>class OrderBook\<close>. An order id \<^verbatim>\<open>ORD-n\<close> is modelled by its number \<open>n\<close>.
  The orders are JavaScript objects shared between \<^verbatim>\<open>this.orders\<close> and the filtered
  lists of \<^verbatim>\<open>match\<close>; the model keeps the orders in one list and lets the filtered
  lists hold positions in it, so that an update made through one alias is seen through
  the other.
\<close>

datatype order_status = Open | Partial | Filled | Cancelled

record order =
  oid :: nat
  owner :: string
  poolId :: string
  side :: string
  price :: rat
  amount :: int
  filled :: int
  status :: order_status
  trit :: int

record match_rec =
  buyId :: nat
  sellId :: nat
  fill :: int
  match_price :: rat

record order_book =
  orders :: "order list"
  counter :: nat

definition new_order_book :: order_book where
  "new_order_book = \<lparr>orders = [], counter = 0\<rparr>"

definition place :: "order_book \<Rightarrow> string \<Rightarrow> string \<Rightarrow> string \<Rightarrow> rat \<Rightarrow> int \<Rightarrow> order \<times> order_book" where
  "place ob own pl sd pr amt =
     (let new = \<lparr>oid = counter ob, owner = own, poolId = pl, side = sd, price = pr,
                 amount = amt, filled = 0, status = Open, trit = 0\<rparr>
      in (new, \<lparr>orders = orders ob @ [new], counter = Suc (counter ob)\<rparr>))"

definition open_side :: "order list \<Rightarrow> string \<Rightarrow> string \<Rightarrow> nat list" where
  \<comment> \<open>the positions of the orders kept by the filter of \<^verbatim>\<open>match\<close>, in list order\<close>
  "open_side os pl sd =
     filter (\<lambda>i. poolId (os ! i) = pl \<and> side (os ! i) = sd \<and> status (os ! i) = Open)
            [0..<length os]"

definition fill_pair :: "order list \<Rightarrow> nat \<Rightarrow> nat \<Rightarrow> order list \<times> match_rec list" where
  \<comment> \<open>the body of the inner loop of \<^verbatim>\<open>match\<close>, for the buy at \<open>b\<close> and the sell at \<open>s\<close>\<close>
  "fill_pair os b s =
     (let buy = os ! b; sell = os ! s
      in if price buy \<ge> price sell then
           (let f = min (amount buy - filled buy) (amount sell - filled sell)
            in if f > 0 then
                 (let buy' = buy\<lparr>filled := filled buy + f, trit := 1,
                                  status := (if filled buy + f \<ge> amount buy then Filled else Partial)\<rparr>;
                      sell' = sell\<lparr>filled := filled sell + f, trit := 1,
                                    status := (if filled sell + f \<ge> amount sell then Filled else Partial)\<rparr>
                  in (os[b := buy', s := sell'],
                      [\<lparr>buyId = oid buy, sellId = oid sell, fill = f, match_price = price sell\<rparr>]))
               else (os, []))
         else (os, []))"

fun match_sells :: "order list \<Rightarrow> nat \<Rightarrow> nat list \<Rightarrow> order list \<times> match_rec list" where
  \<comment> \<open>\<^verbatim>\<open>for (const sell of sells)\<close>\<close>
  "match_sells os b [] = (os, [])"
| "match_sells os b (s # ss) =
     (case fill_pair os b s of
        (os1, m1) \<Rightarrow> (case match_sells os1 b ss of (os2, m2) \<Rightarrow> (os2, m1 @ m2)))"

fun match_buys :: "order list \<Rightarrow> nat list \<Rightarrow> nat list \<Rightarrow> order list \<times> match_rec list" where
  \<comment> \<open>\<^verbatim>\<open>for (const buy of buys)\<close>\<close>
  "match_buys os [] ss = (os, [])"
| "match_buys os (b # bs) ss =
     (case match_sells os b ss of
        (os1, m1) \<Rightarrow> (case match_buys os1 bs ss of (os2, m2) \<Rightarrow> (os2, m1 @ m2)))"

definition match :: "order_book \<Rightarrow> string \<Rightarrow> match_rec list \<times> order_book" where
  \<comment> \<open>buys by price descending, sells by price ascending; \<^verbatim>\<open>Array.prototype.sort\<close> is stable\<close>
  "match ob pl =
     (let buys = sort_key (\<lambda>i. - price (orders ob ! i)) (open_side (orders ob) pl ''buy'');
          sells = sort_key (\<lambda>i. price (orders ob ! i)) (open_side (orders ob) pl ''sell'')
      in case match_buys (orders ob) buys sells of
           (os', ms) \<Rightarrow> (ms, ob\<lparr>orders := os'\<rparr>))"

fun cancel_first :: "order list \<Rightarrow> nat \<Rightarrow> order list" where
  \<comment> \<open>\<^verbatim>\<open>this.orders.find(x => x.id === orderId)\<close>, then the update of the order found\<close>
  "cancel_first [] n = []"
| "cancel_first (x # xs) n =
     (if oid x = n then x\<lparr>status := Cancelled, trit := -1\<rparr> # xs else x # cancel_first xs n)"

definition cancel :: "order_book \<Rightarrow> nat \<Rightarrow> order_book" where
  "cancel ob n = ob\<lparr>orders := cancel_first (orders ob) n\<rparr>"

definition openOrders :: "order_book \<Rightarrow> string \<Rightarrow> order list" where
  "openOrders ob pl = filter (\<lambda>x. poolId x = pl \<and> status x = Open) (orders ob)"

section \<open>The store: wallets, auto-trade configuration, venue orders\<close>

text \<open>
  \<^verbatim>\<open>class CrownyDB\<close>. A table is the list of its rows. The tables \<^verbatim>\<open>wallets\<close>
  and \<^verbatim>\<open>auto_trade_config\<close> are declared \<^verbatim>\<open>UNIQUE(user_id, token)\<close> and
  \<^verbatim>\<open>UNIQUE(user_id, exchange)\<close>; a query with \<^verbatim>\<open>.get\<close> returns the first row
  that matches, an \<^verbatim>\<open>UPDATE\<close> changes every row that matches. The columns are
  \<^verbatim>\<open>REAL\<close> or \<^verbatim>\<open>INTEGER\<close>; time stamps are left out.
\<close>

record wallet_row =
  w_user :: string
  w_token :: string
  balance :: rat
  locked :: rat

record auto_cfg =
  c_user :: string
  c_exchange :: string
  enabled :: bool
  max_position_pct :: rat
  max_daily_trades :: int
  daily_trades_used :: int
  consecutive_losses :: int
  max_consecutive_losses :: int

record exchange_order =
  eo_id :: nat
  eo_user :: string
  eo_exchange :: string
  eo_symbol :: string
  eo_side :: string
  eo_type :: string
  eo_price :: "rat option"
  eo_quantity :: rat
  eo_status :: string
  eo_exchange_order_id :: string
  eo_filled_qty :: rat
  eo_filled_price :: rat
  eo_source :: string
  eo_ai_signal_id :: "nat option"
  eo_error :: "string option"

record db =
  wallets :: "wallet_row list"
  auto_trade_config :: "auto_cfg list"
  exchange_orders :: "exchange_order list"

datatype db_error =
    InsufficientBalance     \<comment> \<open>thrown by \<^verbatim>\<open>subtractBalance\<close>\<close>
  | InsufficientAvailable   \<comment> \<open>thrown by \<^verbatim>\<open>lockBalance\<close>\<close>

definition wallet_of :: "string \<Rightarrow> string \<Rightarrow> wallet_row \<Rightarrow> bool" where
  "wallet_of u t r \<longleftrightarrow> w_user r = u \<and> w_token r = t"

definition getBalance :: "db \<Rightarrow> string \<Rightarrow> string \<Rightarrow> rat \<times> rat" where
  \<comment> \<open>\<open>(balance, locked)\<close>, both \<open>0\<close> when there is no row\<close>
  "getBalance d u t =
     (case find (wallet_of u t) (wallets d) of
        None \<Rightarrow> (0, 0)
      | Some r \<Rightarrow> (balance r, locked r))"

definition getAllBalances :: "db \<Rightarrow> string \<Rightarrow> wallet_row list" where
  "getAllBalances d u = filter (\<lambda>r. w_user r = u) (wallets d)"

definition setBalance :: "db \<Rightarrow> string \<Rightarrow> string \<Rightarrow> rat \<Rightarrow> db" where
  \<comment> \<open>\<^verbatim>\<open>INSERT ... ON CONFLICT(user_id, token) DO UPDATE SET balance = ?\<close>\<close>
  "setBalance d u t b =
     (if find (wallet_of u t) (wallets d) \<noteq> None
      then d\<lparr>wallets := map (\<lambda>r. if wallet_of u t r then r\<lparr>balance := b\<rparr> else r) (wallets d)\<rparr>
      else d\<lparr>wallets := wallets d @ [\<lparr>w_user = u, w_token = t, balance = b, locked = 0\<rparr>]\<rparr>)"

definition addBalance :: "db \<Rightarrow> string \<Rightarrow> string \<Rightarrow> rat \<Rightarrow> db" where
  "addBalance d u t a = setBalance d u t (fst (getBalance d u t) + a)"

definition subtractBalance :: "db \<Rightarrow> string \<Rightarrow> string \<Rightarrow> rat \<Rightarrow> db_error + db" where
  "subtractBalance d u t a =
     (if fst (getBalance d u t) < a then Inl InsufficientBalance
      else Inr (setBalance d u t (fst (getBalance d u t) - a)))"

definition lockBalance :: "db \<Rightarrow> string \<Rightarrow> string \<Rightarrow> rat \<Rightarrow> db_error + db" where
  "lockBalance d u t a =
     (if fst (getBalance d u t) - snd (getBalance d u t) < a then Inl InsufficientAvailable
      else Inr (d\<lparr>wallets := map (\<lambda>r. if wallet_of u t r then r\<lparr>locked := locked r + a\<rparr> else r)
                                  (wallets d)\<rparr>))"

definition unlockBalance :: "db \<Rightarrow> string \<Rightarrow> string \<Rightarrow> rat \<Rightarrow> db" where
  \<comment> \<open>\<^verbatim>\<open>SET locked = MAX(0, locked - ?)\<close>\<close>
  "unlockBalance d u t a =
     d\<lparr>wallets := map (\<lambda>r. if wallet_of u t r then r\<lparr>locked := max 0 (locked r - a)\<rparr> else r)
                       (wallets d)\<rparr>"

definition available :: "db \<Rightarrow> string \<Rightarrow> string \<Rightarrow> rat" where
  \<comment> \<open>\<open>balance - locked\<close> of the wallet entry\<close>
  "available d u t = fst (getBalance d u t) - snd (getBalance d u t)"

definition cfg_of :: "string \<Rightarrow> string \<Rightarrow> auto_cfg \<Rightarrow> bool" where
  "cfg_of u e c \<longleftrightarrow> c_user c = u \<and> c_exchange c = e"

definition getAutoTradeConfig :: "db \<Rightarrow> string \<Rightarrow> string \<Rightarrow> auto_cfg option" where
  "getAutoTradeConfig d u e = find (cfg_of u e) (auto_trade_config d)"


definition resetDailyTrades :: "db \<Rightarrow> db" where
  "resetDailyTrades d =
     d\<lparr>auto_trade_config := map (\<lambda>c. c\<lparr>daily_trades_used := 0\<rparr>) (auto_trade_config d)\<rparr>"

definition incrementConsecutiveLosses :: "db \<Rightarrow> string \<Rightarrow> string \<Rightarrow> db" where
  "incrementConsecutiveLosses d u e =
     d\<lparr>auto_trade_config :=
         map (\<lambda>c. if cfg_of u e c then c\<lparr>consecutive_losses := consecutive_losses c + 1\<rparr> else c)
             (auto_trade_config d)\<rparr>"

definition resetConsecutiveLosses :: "db \<Rightarrow> string \<Rightarrow> string \<Rightarrow> db" where
  "resetConsecutiveLosses d u e =
     d\<lparr>auto_trade_config :=
         map (\<lambda>c. if cfg_of u e c then c\<lparr>consecutive_losses := 0\<rparr> else c)
             (auto_trade_config d)\<rparr>"



section \<open>The trade executor\<close>

text \<open>
  \<^verbatim>\<open>class TradeExecutor\<close> of \<^verbatim>\<open>trade-executor.js\<close>. The texts of the safety
  messages are left out: an entry of \<^verbatim>\<open>errors\<close> is the check that produced it. The
  venue is outside the program: \<open>executeOrder\<close> takes the outcome of its third step
  (building the client and calling the venue) as the parameter \<open>venue\<close>, \<open>Inl\<close> the
  message of the error thrown there, \<open>Inr\<close> the reply of the venue. The quantity, the
  price and the balances are finite numbers; the position check computes with them as
  doubles.
\<close>

datatype safety_reason = DailyLimit | LossLimit | PositionSize






definition totalValue :: "db \<Rightarrow> string \<Rightarrow> number" where
  \<comment> \<open>\<^verbatim>\<open>Object.values(balances).reduce((sum, b) => sum + b.balance, 0)\<close>\<close>
  "totalValue d u = foldl (\<lambda>sum b. fadd sum (dbl (balance b))) (Fin 0) (getAllBalances d u)"

definition orderValue :: "rat \<Rightarrow> rat option \<Rightarrow> number" where
  \<comment> \<open>\<^verbatim>\<open>quantity * (price || 1)\<close>; the price is \<^verbatim>\<open>null\<close> when missing\<close>
  "orderValue q pr = fmul (dbl q) (case pr of None \<Rightarrow> Fin 1 | Some x \<Rightarrow> for_else (dbl x) (Fin 1))"

definition checkSafety ::
  "db \<Rightarrow> string \<Rightarrow> string \<Rightarrow> string \<Rightarrow> rat \<Rightarrow> rat option \<Rightarrow> bool \<times> safety_reason list" where
  \<comment> \<open>\<^verbatim>\<open>_checkSafety(userId, exchange, side, quantity, price)\<close>: \<open>(safe, errors)\<close>\<close>
  "checkSafety d u e sd q pr =
     (case getAutoTradeConfig d u e of
        None \<Rightarrow> (True, [])
      | Some c \<Rightarrow>
          (let e1 = (if daily_trades_used c \<ge> max_daily_trades c then [DailyLimit] else []);
               e2 = (if consecutive_losses c \<ge> max_consecutive_losses c then [LossLimit] else []);
               e3 = (if fgt (totalValue d u) (Fin 0)
                        \<and> fgt (fdiv (orderValue q pr) (totalValue d u)) (dbl (max_position_pct c))
                     then [PositionSize] else []);
               errors = e1 @ e2 @ e3
           in (errors = [], errors)))"


definition recordTradeResult :: "db \<Rightarrow> string \<Rightarrow> string \<Rightarrow> bool \<Rightarrow> db" where
  "recordTradeResult d u e isProfit =
     (if isProfit then resetConsecutiveLosses d u e else incrementConsecutiveLosses d u e)"

section \<open>The gateway: rate limiting\<close>

text \<open>
  \<^verbatim>\<open>MetaKernelGateway._checkRateLimit\<close> of \<^verbatim>\<open>gateway.js\<close>, with the clock
  \<^verbatim>\<open>Date.now()\<close> (milliseconds) as the parameter \<open>now\<close>, and the first statement of
  \<^verbatim>\<open>route\<close>, which throws \<^verbatim>\<open>RATE_LIMITED\<close> when the check fails. The dispatch to
  the services that follows in \<^verbatim>\<open>route\<close> is not modelled.
\<close>

record rate_entry =
  count :: int
  resetAt :: int

type_synonym rate_limits = "string \<rightharpoonup> rate_entry"

definition RATE_LIMIT :: int where
  "RATE_LIMIT = 100"

definition RATE_WINDOW :: int where
  "RATE_WINDOW = 60000"

definition checkRateLimit :: "int \<Rightarrow> rate_limits \<Rightarrow> string \<Rightarrow> bool \<times> rate_limits" where
  "checkRateLimit now rl u =
     (let limit = (case rl u of
                     None \<Rightarrow> \<lparr>count = 0, resetAt = now + RATE_WINDOW\<rparr>
                   | Some l \<Rightarrow> if now > resetAt l
                              then \<lparr>count = 0, resetAt = now + RATE_WINDOW\<rparr> else l);
          limit' = limit\<lparr>count := count limit + 1\<rparr>
      in (count limit' \<le> RATE_LIMIT, rl(u \<mapsto> limit')))"

datatype gateway_error = RateLimited

definition route_rate_limit :: "int \<Rightarrow> rate_limits \<Rightarrow> string \<Rightarrow> (gateway_error + unit) \<times> rate_limits" where
  \<comment> \<open>\<^verbatim>\<open>if (!this._checkRateLimit(user.id)) throw new Error('RATE_LIMITED: ...')\<close>\<close>
  "route_rate_limit now rl u =
     (case checkRateLimit now rl u of
        (True, rl') \<Rightarrow> (Inr (), rl')
      | (False, rl') \<Rightarrow> (Inl RateLimited, rl'))"

abbreviation verdict :: "int \<Rightarrow> gateway_error + unit" where
  \<comment> \<open>the outcome of \<^verbatim>\<open>route\<close> for the call that raises the counter to \<open>n\<close>\<close>
  "verdict n \<equiv> (if n \<le> 100 then Inr () else Inl RateLimited)"

fun route_calls :: "rate_limits \<Rightarrow> string \<Rightarrow> int list \<Rightarrow> (gateway_error + unit) list \<times> rate_limits" where
  \<comment> \<open>the calls of one principal, one after the other, at the given times\<close>
  "route_calls rl u [] = ([], rl)"
| "route_calls rl u (t # ts) =
     (case route_rate_limit t rl u of
        (r, rl1) \<Rightarrow> (case route_calls rl1 u ts of (rs, rl2) \<Rightarrow> (r # rs, rl2)))"

section \<open>The trading AI: risk manager and consensus\<close>

text \<open>
  \<^verbatim>\<open>class RiskManager\<close> and \<^verbatim>\<open>class TradingAI\<close> of \<^verbatim>\<open>trading-ai.js\<close>.
  A strategy is an object with a name, a weight and a method \<^verbatim>\<open>analyze(candles)\<close>;
  \<^verbatim>\<open>TradingAI.analyze\<close> runs whatever strategies the object holds, so the model takes
  the strategies as records with the method as a function. The reason texts and the
  \<^verbatim>\<open>toFixed\<close> formatting of the score and of the confidence are left out. Weights,
  confidences, prices and balances are finite numbers, given as rationals and read as
  doubles; the sums, the quotients and the comparisons are those of doubles.
\<close>

record candle =
  c_open :: rat
  c_high :: rat
  c_low :: rat
  c_close :: rat
  c_volume :: rat

record strategy_result =
  signal :: int
  confidence :: rat

record strategy =
  s_name :: string
  weight :: rat
  s_analyze :: "candle list \<Rightarrow> strategy_result"

record strat_out =
  so_name :: string
  so_weight :: rat
  so_signal :: int
  so_confidence :: rat

record position =
  entryPrice :: rat
  pos_amount :: rat

datatype risk_level = Block | StopLoss | TakeProfit

record risk_report =
  allowed :: bool
  risks :: "risk_level list"
  maxSize :: number

record risk_manager =
  maxPositionSize :: rat
  maxDrawdown :: rat
  stopLossPercent :: rat
  takeProfitPercent :: rat
  maxDailyTrades :: int
  dailyTrades :: int
  peakBalance :: rat
  positions :: "string \<rightharpoonup> position"

definition new_risk_manager :: "rat \<Rightarrow> rat \<Rightarrow> rat \<Rightarrow> rat \<Rightarrow> int \<Rightarrow> risk_manager" where
  \<comment> \<open>the constructor, after the defaults \<^verbatim>\<open>config.x || default\<close> have been taken\<close>
  "new_risk_manager mps mdd sl tp mdt =
     \<lparr>maxPositionSize = mps, maxDrawdown = mdd, stopLossPercent = sl, takeProfitPercent = tp,
      maxDailyTrades = mdt, dailyTrades = 0, peakBalance = 0, positions = Map.empty\<rparr>"

definition checkRisk ::
  "risk_manager \<Rightarrow> string \<Rightarrow> rat \<Rightarrow> rat \<Rightarrow> risk_report \<times> risk_manager" where
  \<comment> \<open>\<^verbatim>\<open>checkRisk(action, symbol, price, balance)\<close>; \<^verbatim>\<open>action\<close> is not used by the code\<close>
  "checkRisk rm smb pr bal =
     (let r1 = (if dailyTrades rm \<ge> maxDailyTrades rm then [Block] else []);
          peak = (if fgt (dbl bal) (dbl (peakBalance rm)) then bal else peakBalance rm);
          drawdown = fdiv (fsub (dbl peak) (dbl bal)) (dbl peak);
          r2 = (if fgt drawdown (dbl (maxDrawdown rm)) then [Block] else []);
          r3 = (case positions rm smb of
                  None \<Rightarrow> []
                | Some pos \<Rightarrow>
                    (let pnl = fdiv (fsub (dbl pr) (dbl (entryPrice pos))) (dbl (entryPrice pos))
                     in (if flt pnl (xneg (dbl (stopLossPercent rm))) then [StopLoss] else []) @
                        (if fgt pnl (dbl (takeProfitPercent rm)) then [TakeProfit] else [])));
          rs = r1 @ r2 @ r3
      in (\<lparr>allowed = (Block \<notin> set rs), risks = rs,
            maxSize = fmul (dbl bal) (dbl (maxPositionSize rm))\<rparr>,
          rm\<lparr>peakBalance := peak\<rparr>))"

definition recordTrade :: "risk_manager \<Rightarrow> string \<Rightarrow> string \<Rightarrow> rat \<Rightarrow> rat \<Rightarrow> risk_manager" where
  "recordTrade rm smb sd pr amt =
     (let rm1 = rm\<lparr>dailyTrades := dailyTrades rm + 1\<rparr>
      in if sd = ''buy''
         then rm1\<lparr>positions := (positions rm1)(smb \<mapsto> \<lparr>entryPrice = pr, pos_amount = amt\<rparr>)\<rparr>
         else if sd = ''sell'' \<and> positions rm1 smb \<noteq> None
         then rm1\<lparr>positions := (positions rm1)(smb := None)\<rparr>
         else rm1)"

definition resetDaily :: "risk_manager \<Rightarrow> risk_manager" where
  "resetDaily rm = rm\<lparr>dailyTrades := 0\<rparr>"

datatype decision = Buy | Sell | Hold

record analysis =
  a_decision :: decision
  a_trit :: int
  a_score :: "number option"
  a_confidence :: number
  a_strategies :: "strat_out list"
  a_risk :: "risk_report option"
  a_price :: "rat option"

record trading_ai =
  strategies :: "strategy list"
  riskManager :: risk_manager

definition run_strategy :: "candle list \<Rightarrow> strategy \<Rightarrow> strat_out" where
  \<comment> \<open>\<^verbatim>\<open>{ name: s.name, weight: s.weight, ...s.analyze(candles) }\<close>\<close>
  "run_strategy cs s =
     \<lparr>so_name = s_name s, so_weight = weight s,
      so_signal = signal (s_analyze s cs), so_confidence = confidence (s_analyze s cs)\<rparr>"

definition contributes :: "strat_out \<Rightarrow> bool" where
  \<comment> \<open>\<^verbatim>\<open>r.confidence > 0\<close>\<close>
  "contributes r \<longleftrightarrow> fgt (dbl (so_confidence r)) (Fin 0)"

definition vote :: "strat_out \<Rightarrow> number" where
  \<comment> \<open>\<^verbatim>\<open>r.signal * r.weight * r.confidence\<close>\<close>
  "vote r = fmul (fmul (dbl (of_int (so_signal r))) (dbl (so_weight r))) (dbl (so_confidence r))"

definition stake :: "strat_out \<Rightarrow> number" where
  \<comment> \<open>\<^verbatim>\<open>r.weight * r.confidence\<close>\<close>
  "stake r = fmul (dbl (so_weight r)) (dbl (so_confidence r))"

fun tally :: "strat_out list \<Rightarrow> number \<times> number \<times> number \<Rightarrow> number \<times> number \<times> number" where
  \<comment> \<open>the voting loop: \<open>(weightedSum, totalWeight, totalConfidence)\<close>\<close>
  "tally [] acc = acc"
| "tally (r # rs) (ws, tw, tc) =
     tally rs (if contributes r
               then (fadd ws (vote r), fadd tw (stake r), fadd tc (dbl (so_confidence r)))
               else (ws, tw, tc))"

definition analyze :: "trading_ai \<Rightarrow> candle list \<Rightarrow> string \<Rightarrow> rat \<Rightarrow> analysis \<times> trading_ai" where
  "analyze ai cs smb bal =
     (if length cs < 50
      then (\<lparr>a_decision = Hold, a_trit = 0, a_score = None, a_confidence = Fin 0,
             a_strategies = [], a_risk = None, a_price = None\<rparr>, ai)
      else
        (let results = map (run_strategy cs) (strategies ai)
         in case tally results (Fin 0, Fin 0, Fin 0) of
              (weightedSum, totalWeight, totalConfidence) \<Rightarrow>
                (let avgScore = (if fgt totalWeight (Fin 0) then fdiv weightedSum totalWeight
                                 else Fin 0);
                     avgConfidence = (if length results > 0
                                      then fdiv totalConfidence (dbl (of_nat (length results)))
                                      else Fin 0);
                     d0 = (if fgt avgScore (dbl (3 / 10)) then Buy
                           else if flt avgScore (xneg (dbl (3 / 10))) then Sell else Hold);
                     currentPrice = c_close (last cs)
                 in case checkRisk (riskManager ai) smb currentPrice bal of
                      (risk, rm') \<Rightarrow>
                        (let d1 = (if \<not> allowed risk \<and> d0 \<noteq> Hold then Hold else d0);
                             d2 = (if StopLoss \<in> set (risks risk) then Sell else d1);
                             d3 = (if TakeProfit \<in> set (risks risk) then Sell else d2)
                         in (\<lparr>a_decision = d3,
                               a_trit = (case d3 of Buy \<Rightarrow> 1 | Sell \<Rightarrow> - 1 | Hold \<Rightarrow> 0),
                               a_score = Some avgScore, a_confidence = avgConfidence,
                               a_strategies = filter contributes results,
                               a_risk = Some risk, a_price = Some currentPrice\<rparr>,
                             ai\<lparr>riskManager := rm'\<rparr>)))))"

section \<open>The specification's formulas\<close>

text \<open>
  These definitions follow the words of the specification, not the code; the theorems
  below compare them with the code. The steps of the swap are stated on integers. The
  sums of the consensus are those of the specification taken in doubles, over the
  contributing strategies in their order.
\<close>

definition spec_fee :: "int \<Rightarrow> int \<Rightarrow> int" where
  \<comment> \<open>step 1 of the swap: \<open>fee = floor(amountIn * feeBps / 10000)\<close>\<close>
  "spec_fee fbps amt = \<lfloor>of_int (amt * fbps) / (10000 :: rat)\<rfloor>"

definition spec_swap_out :: "int \<Rightarrow> int \<Rightarrow> int \<Rightarrow> int \<Rightarrow> int" where
  \<comment> \<open>steps 2 to 5 of the swap, for the reserve \<open>rin\<close> of the token paid in and the reserve
      \<open>rout\<close> of the token paid out, with \<open>k = rin * rout\<close>\<close>
  "spec_swap_out rin rout fbps amt =
     (let afterFee = amt - spec_fee fbps amt;
          newIn = rin + afterFee;
          newOut = \<lfloor>of_int (rin * rout) / (of_int newIn :: rat)\<rfloor>
      in rout - newOut)"

definition swap_in_range :: "int \<Rightarrow> int \<Rightarrow> int \<Rightarrow> int \<Rightarrow> bool" where
  \<comment> \<open>every number a swap computes from the reserves \<open>rin\<close> and \<open>rout\<close>, the fee rate and
      the amount is a safe integer\<close>
  "swap_in_range rin rout fbps amt \<longleftrightarrow>
     (let newIn = rin + (amt - amt * fbps div 10000);
          newOut = rin * rout div newIn
      in list_all safe [rin, rout, fbps, amt, amt * fbps, amt - amt * fbps div 10000, newIn,
                        rin * rout, rout - newOut, newIn * newOut])"

definition liquidity_in_range :: "int \<Rightarrow> int \<Rightarrow> int \<Rightarrow> int \<Rightarrow> int \<Rightarrow> int \<Rightarrow> bool" where
  \<comment> \<open>every number that a deposit of \<open>(A, B)\<close> and the withdrawal of the shares it mints
      compute, from the reserves, the shares outstanding and the holding \<open>h\<close> of the
      provider, is a safe integer; and the product under the square root of a first
      deposit is below \<open>2^52\<close>\<close>
  "liquidity_in_range rA rB S h A B \<longleftrightarrow>
     (let s = (if S = 0 then isqrt (A * B) else min (A * S div rA) (B * S div rB))
      in (if S = 0 then A * B < 2 ^ 52 else safe (A * S) \<and> safe (B * S))
         \<and> list_all safe [rA, rB, S, h, A, B, rA + A, rB + B, S + s, h + s,
                           s * (rA + A), s * (rB + B)])"

definition spec_weightedSum :: "strat_out list \<Rightarrow> number" where
  "spec_weightedSum rs = foldl fadd (Fin 0) (map vote (filter contributes rs))"

definition spec_totalWeight :: "strat_out list \<Rightarrow> number" where
  "spec_totalWeight rs = foldl fadd (Fin 0) (map stake (filter contributes rs))"

definition spec_score :: "strat_out list \<Rightarrow> number" where
  "spec_score rs =
     (if filter contributes rs = [] then Fin 0
      else fdiv (spec_weightedSum rs) (spec_totalWeight rs))"

definition spec_decision :: "number \<Rightarrow> decision" where
  "spec_decision sc =
     (if fgt sc (dbl (3 / 10)) then Buy else if flt sc (xneg (dbl (3 / 10))) then Sell else Hold)"

fun value_of :: "number \<Rightarrow> rat" where
  \<comment> \<open>the value of a finite number\<close>
  "value_of (Fin q) = q"
| "value_of x = 0"

definition vote_weight :: "int \<Rightarrow> strat_out list \<Rightarrow> rat" where
  \<comment> \<open>the weight behind one signal: the exact sum of the values \<open>weight * confidence\<close> of the
      contributing strategies that emit it\<close>
  "vote_weight sg rs =
     (\<Sum>r \<leftarrow> filter (\<lambda>r. contributes r \<and> so_signal r = sg) rs. value_of (stake r))"

definition ordinary :: "rat \<Rightarrow> bool" where
  \<comment> \<open>a magnitude far from the ends of the range of doubles\<close>
  "ordinary x \<longleftrightarrow> 1 / 2 ^ 500 \<le> x \<and> x \<le> 2 ^ 500"

section \<open>Example states\<close>

text \<open>
  Two of the six pools as \<^verbatim>\<open>CrownyDEX._bootstrap\<close> leaves them: the system account
  has added 10,000,000 CRWN and 1,250,000 USDT to the first and 5,000,000 CRWN and 50 BTC
  to the second, both created with a fee of 30 basis points.
\<close>

definition crwn_usdt :: pool where
  "crwn_usdt =
     \<lparr>tokenA = ''CRWN'', tokenB = ''USDT'', reserveA = Fin 10000000, reserveB = Fin 1250000,
      k = Fin 12500000000000, feeBps = Fin 30, totalLpShares = Fin 3535533,
      lpHolders = [''__system__'' \<mapsto> Fin 3535533], volume24h = Fin 0, feesCollected = Fin 0,
      swapCount = Fin 0, priceHistory = [fdiv (Fin 1250000) (Fin 10000000)], tritState = 1\<rparr>"

definition crwn_btc :: pool where
  "crwn_btc =
     \<lparr>tokenA = ''CRWN'', tokenB = ''BTC'', reserveA = Fin 5000000, reserveB = Fin 50,
      k = Fin 250000000, feeBps = Fin 30, totalLpShares = Fin 15811,
      lpHolders = [''__system__'' \<mapsto> Fin 15811], volume24h = Fin 0, feesCollected = Fin 0,
      swapCount = Fin 0, priceHistory = [fdiv (Fin 50) (Fin 5000000)], tritState = 1\<rparr>"

text \<open>
  A pool with reserves of 100,000,000 and 1,750,000,000, whose product
  175,000,000,000,000,000 is a double above \<open>2^53\<close>, with a fee of 20 basis points; and a
  pool with reserves of 21,953,798,733,824 and 28,096 and a fee of 30 basis points.
\<close>

definition big_pool :: pool where
  "big_pool =
     \<lparr>tokenA = ''CRWN'', tokenB = ''KRW'', reserveA = Fin 100000000, reserveB = Fin 1750000000,
      k = Fin 175000000000000000, feeBps = Fin 20, totalLpShares = Fin 418330013,
      lpHolders = [''__system__'' \<mapsto> Fin 418330013], volume24h = Fin 0, feesCollected = Fin 0,
      swapCount = Fin 0, priceHistory = [fdiv (Fin 1750000000) (Fin 100000000)], tritState = 1\<rparr>"

definition deep_pool :: pool where
  "deep_pool =
     \<lparr>tokenA = ''CRWN'', tokenB = ''BTC'', reserveA = Fin 21953798733824, reserveB = Fin 28096,
      k = Fin 616813929225519104, feeBps = Fin 30, totalLpShares = Fin 785375024,
      lpHolders = [''__system__'' \<mapsto> Fin 785375024], volume24h = Fin 0, feesCollected = Fin 0,
      swapCount = Fin 0, priceHistory = [fdiv (Fin 28096) (Fin 21953798733824)], tritState = 1\<rparr>"

text \<open>
  A wallet of 10 USDT; the same wallet after \<^verbatim>\<open>lockBalance\<close> has locked 5 of them, as
  the gateway does when the user places a buy order.
\<close>

definition wallet_free :: db where
  "wallet_free =
     \<lparr>wallets = [\<lparr>w_user = ''alice'', w_token = ''USDT'', balance = 10, locked = 0\<rparr>],
      auto_trade_config = [], exchange_orders = []\<rparr>"

definition wallet_locked :: db where
  "wallet_locked =
     \<lparr>wallets = [\<lparr>w_user = ''alice'', w_token = ''USDT'', balance = 10, locked = 5\<rparr>],
      auto_trade_config = [], exchange_orders = []\<rparr>"

text \<open>
  An order book with a buy of 5 at price 10 and a sell of 5 at price 10, both open; and an
  order book in which an earlier \<^verbatim>\<open>match\<close> has left a buy of 10 at price 10 partially
  filled by a sell of 4, and a sell of 5 at price 9 has been placed since.
\<close>

definition crossing_book :: order_book where
  "crossing_book =
     \<lparr>orders =
        [\<lparr>oid = 0, owner = ''alice'', poolId = ''CRWN-USDT'', side = ''buy'', price = 10,
          amount = 5, filled = 0, status = Open, trit = 0\<rparr>,
         \<lparr>oid = 1, owner = ''bob'', poolId = ''CRWN-USDT'', side = ''sell'', price = 10,
          amount = 5, filled = 0, status = Open, trit = 0\<rparr>],
      counter = 2\<rparr>"

definition partial_book :: order_book where
  "partial_book =
     \<lparr>orders =
        [\<lparr>oid = 0, owner = ''alice'', poolId = ''CRWN-USDT'', side = ''buy'', price = 10,
          amount = 10, filled = 4, status = Partial, trit = 1\<rparr>,
         \<lparr>oid = 1, owner = ''bob'', poolId = ''CRWN-USDT'', side = ''sell'', price = 10,
          amount = 4, filled = 4, status = Filled, trit = 1\<rparr>,
         \<lparr>oid = 2, owner = ''carol'', poolId = ''CRWN-USDT'', side = ''sell'', price = 9,
          amount = 5, filled = 0, status = Open, trit = 0\<rparr>],
      counter = 3\<rparr>"




text \<open>
  A trading AI whose six strategies carry the names and weights of the constructor and,
  whatever the candles, vote \<open>+1\<close> with confidence \<open>1\<close> (or all \<open>-1\<close>; or, with equal
  weights, three \<open>+1\<close> against three \<open>-1\<close>), with the risk manager the server builds; a
  trading AI in which MACD votes \<open>+1\<close> and Stochastic \<open>-1\<close>, both with confidence \<open>0.5\<close>,
  and the other four do not contribute; and a series of fifty flat candles.
\<close>

definition voter_with :: "string \<Rightarrow> rat \<Rightarrow> int \<Rightarrow> rat \<Rightarrow> strategy" where
  "voter_with n w sg c = \<lparr>s_name = n, weight = w, s_analyze = (\<lambda>cs. \<lparr>signal = sg, confidence = c\<rparr>)\<rparr>"

definition voter :: "string \<Rightarrow> rat \<Rightarrow> int \<Rightarrow> strategy" where
  "voter n w sg = voter_with n w sg 1"

definition server_risk :: risk_manager where
  "server_risk = new_risk_manager (1 / 10) (15 / 100) (3 / 100) (6 / 100) 10"

definition all_buy :: trading_ai where
  "all_buy =
     \<lparr>strategies = [voter ''RSI'' (3 / 2) 1, voter ''MACD'' (13 / 10) 1,
                     voter ''Bollinger'' (6 / 5) 1, voter ''Volume'' (4 / 5) 1,
                     voter ''Trend'' 1 1, voter ''Stochastic'' (7 / 10) 1],
      riskManager = server_risk\<rparr>"

definition all_sell :: trading_ai where
  "all_sell =
     \<lparr>strategies = [voter ''RSI'' (3 / 2) (- 1), voter ''MACD'' (13 / 10) (- 1),
                     voter ''Bollinger'' (6 / 5) (- 1), voter ''Volume'' (4 / 5) (- 1),
                     voter ''Trend'' 1 (- 1), voter ''Stochastic'' (7 / 10) (- 1)],
      riskManager = server_risk\<rparr>"

definition split_vote :: trading_ai where
  "split_vote =
     \<lparr>strategies = [voter ''RSI'' 1 1, voter ''MACD'' 1 (- 1), voter ''Bollinger'' 1 1,
                     voter ''Volume'' 1 (- 1), voter ''Trend'' 1 1, voter ''Stochastic'' 1 (- 1)],
      riskManager = server_risk\<rparr>"

definition tight_vote :: trading_ai where
  "tight_vote =
     \<lparr>strategies = [voter_with ''RSI'' (3 / 2) 0 0, voter_with ''MACD'' (13 / 10) 1 (1 / 2),
                     voter_with ''Bollinger'' (6 / 5) 0 0, voter_with ''Volume'' (4 / 5) 0 0,
                     voter_with ''Trend'' 1 0 0, voter_with ''Stochastic'' (7 / 10) (- 1) (1 / 2)],
      riskManager = server_risk\<rparr>"

definition flat_candles :: "candle list" where
  "flat_candles =
     replicate 50 \<lparr>c_open = 100, c_high = 100, c_low = 100, c_close = 100, c_volume = 1\<rparr>"

section \<open>The rounding of doubles\<close>

lemma ilog2_bounds:
  assumes "0 < x"
  shows "2 powi (ilog2 x) \<le> x" and "x < 2 powi (ilog2 x + 1)"
proof -
  have "2 powi (ilog2 x) \<le> x \<and> x < 2 powi (ilog2 x + 1)"
  proof (cases "1 \<le> x")
    case True
    define n where "n = \<lfloor>x\<rfloor>"
    have n: "0 < n" using True by (simp add: n_def)
    from bitlen_bounds[OF n] have b: "2 ^ nat (bitlen n - 1) \<le> n" "n < 2 ^ nat (bitlen n)" by simp_all
    have b1: "1 \<le> bitlen n" using n bitlen_eq_zero_iff[of n] bitlen_nonneg[of n] by linarith
    have e: "ilog2 x = bitlen n - 1" using True by (simp add: ilog2_def n_def)
    have "(2::rat) ^ nat (bitlen n - 1) = of_int (2 ^ nat (bitlen n - 1))" by simp
    also have "\<dots> \<le> of_int n" using b(1) by (simp only: of_int_le_iff)
    also have "\<dots> \<le> x" by (simp add: n_def)
    finally have lo: "(2::rat) ^ nat (bitlen n - 1) \<le> x" .
    have "n + 1 \<le> 2 ^ nat (bitlen n)" using b(2) by simp
    then have "(of_int (n + 1) :: rat) \<le> of_int (2 ^ nat (bitlen n))" by (simp only: of_int_le_iff)
    moreover have "x < of_int (n + 1)" using floor_correct[of x] by (simp add: n_def)
    ultimately have hi: "x < (2::rat) ^ nat (bitlen n)" by simp
    show ?thesis using lo hi b1 by (simp add: e power_int_def)
  next
    case False
    define c where "c = \<lceil>1 / x\<rceil>"
    define m where "m = c - 1"
    have y: "1 < 1 / x" using False assms by simp
    then have "1 < c" unfolding c_def by (simp add: less_ceiling_iff)
    then have m: "0 < m" by (simp add: m_def)
    from bitlen_bounds[OF m] have b: "2 ^ nat (bitlen m - 1) \<le> m" "m < 2 ^ nat (bitlen m)" by simp_all
    have b1: "1 \<le> bitlen m" using m bitlen_eq_zero_iff[of m] bitlen_nonneg[of m] by linarith
    have e: "ilog2 x = - bitlen m" using False by (simp add: ilog2_def c_def m_def)
    have "1 / x \<le> of_int c" by (simp add: c_def)
    also have "c \<le> 2 ^ nat (bitlen m)" using b(2) by (simp add: m_def)
    then have "(of_int c :: rat) \<le> of_int (2 ^ nat (bitlen m))" by (simp only: of_int_le_iff)
    finally have "1 / x \<le> 2 ^ nat (bitlen m)" by simp
    then have lo: "1 / 2 ^ nat (bitlen m) \<le> x"
      using assms by (simp add: field_simps)
    have "(2::rat) ^ nat (bitlen m - 1) = of_int (2 ^ nat (bitlen m - 1))" by simp
    also have "\<dots> \<le> of_int m" using b(1) by (simp only: of_int_le_iff)
    also have "of_int m < 1 / x" unfolding m_def c_def
      using ceiling_correct[of "1 / x"] by simp
    finally have "2 ^ nat (bitlen m - 1) < 1 / x" .
    then have hi: "x < 1 / 2 ^ nat (bitlen m - 1)"
      using assms by (simp add: field_simps)
    have p1: "2 powi (ilog2 x) = (1::rat) / 2 ^ nat (bitlen m)"
      using b1 by (simp add: e power_int_def field_simps)
    have p2: "2 powi (ilog2 x + 1) = (1::rat) / 2 ^ nat (bitlen m - 1)"
    proof (cases "bitlen m = 1")
      case True
      then show ?thesis by (simp add: e)
    next
      case False
      then have "- bitlen m + 1 < 0" using b1 by simp
      then show ?thesis by (simp add: e power_int_def field_simps nat_diff_distrib)
    qed
    show ?thesis using lo hi by (simp only: p1 p2)
  qed
  then show "2 powi (ilog2 x) \<le> x" and "x < 2 powi (ilog2 x + 1)" by simp_all
qed

lemma pow2_less_imp:
  assumes "(2::rat) powi a < 2 powi b"
  shows "a < b"
  using assms power_int_increasing[of b a "2::rat"] by (cases "a < b") simp_all

lemma ilog2_unique:
  assumes "2 powi e \<le> x" and "x < 2 powi (e + 1)"
  shows "ilog2 x = e"
proof -
  have x: "0 < x" using assms(1) zero_less_power_int[of "2::rat" e] by linarith
  note b = ilog2_bounds[OF x]
  have "(2::rat) powi e < 2 powi (ilog2 x + 1)" using assms(1) b(2) by linarith
  then have "e < ilog2 x + 1" by (rule pow2_less_imp)
  moreover have "(2::rat) powi (ilog2 x) < 2 powi (e + 1)" using assms(2) b(1) by linarith
  then have "ilog2 x < e + 1" by (rule pow2_less_imp)
  ultimately show ?thesis by simp
qed

lemma round_even_of_int [simp]: "round_even (of_int m) = m"
  by (simp add: round_even_def)

lemma round_even_error: "\<bar>of_int (round_even t) - t\<bar> \<le> 1 / 2"
proof -
  define f where "f = \<lfloor>t\<rfloor>"
  have "of_int f \<le> t" "t < of_int f + 1" unfolding f_def by linarith+
  then show ?thesis unfolding round_even_def f_def[symmetric] by (auto simp: abs_if)
qed

lemma round_even_mono_lower: "of_int n \<le> t \<Longrightarrow> n \<le> round_even t"
proof -
  assume "of_int n \<le> t"
  then have "n \<le> \<lfloor>t\<rfloor>" by (simp add: le_floor_iff)
  then show ?thesis by (auto simp: round_even_def)
qed

lemma round_even_mono_upper: "t \<le> of_int n \<Longrightarrow> round_even t \<le> n"
proof -
  assume a: "t \<le> of_int n"
  show ?thesis
  proof (cases "t = of_int n")
    case True
    then show ?thesis by simp
  next
    case False
    then have "t < of_int n" using a by simp
    then have "\<lfloor>t\<rfloor> < n" by (simp add: floor_less_iff)
    then show ?thesis by (auto simp: round_even_def)
  qed
qed

lemma ulp_pos [simp]: "0 < ulp x"
  by (simp add: ulp_def)

lemma ulp_nonneg [simp]: "0 \<le> ulp x"
  by (simp add: ulp_def)

lemma ulp_neq0 [simp]: "ulp x \<noteq> 0"
  by (metis ulp_pos less_irrefl)

lemma round_pos_exact:
  assumes m: "0 < m" "m \<le> 2 ^ 53" and e: "- 1022 \<le> e"
    and x: "x = of_int m * 2 powi (e - 52)" and fin: "x < 2 ^ 1024"
  shows "round_pos x = Fin x"
proof -
  have xpos: "0 < x" using m(1) by (simp add: x)
  define E where "E = max (ilog2 x) (- 1022)"
  have u: "ulp x = 2 powi (E - 52)" by (simp add: ulp_def E_def)
  have top: "(2::rat) ^ 53 * 2 powi (e - 52) = 2 powi (e + 1)"
  proof -
    have "(2::rat) powi (e + 1) = 2 powi (53 + (e - 52))"
      by (rule arg_cong[where f = "power_int 2"]) simp
    also have "\<dots> = 2 powi 53 * 2 powi (e - 52)" by (rule power_int_add) simp
    finally show ?thesis by simp
  qed
  have "\<exists>j. x / ulp x = of_int j"
  proof (cases "m = 2 ^ 53")
    case True
    then have xe: "x = 2 powi (e + 1)" using top by (simp add: x)
    have "x < 2 powi (e + 1 + 1)"
      unfolding xe by (rule power_int_strict_increasing) simp_all
    with xe have "ilog2 x = e + 1" by (intro ilog2_unique) simp_all
    then have "E = e + 1" using e by (simp add: E_def)
    then have "ulp x = 2 powi (e + 1 - 52)" by (simp only: u)
    then have "x / ulp x = 2 powi (e + 1) / 2 powi (e + 1 - 52)" by (simp only: xe)
    also have "\<dots> = 2 powi ((e + 1) - (e + 1 - 52))" by (rule power_int_diff[symmetric]) simp
    also have "\<dots> = of_int (2 ^ 52)" by simp
    finally show ?thesis by blast
  next
    case False
    then have "m < 2 ^ 53" using m(2) by simp
    then have "(of_int m :: rat) < of_int (2 ^ 53)" by (simp only: of_int_less_iff)
    then have "of_int m * 2 powi (e - 52) < (2::rat) ^ 53 * 2 powi (e - 52)"
      by (intro mult_strict_right_mono) simp_all
    then have lt: "x < 2 powi (e + 1)" unfolding x top .
    have "(2::rat) powi (ilog2 x) < 2 powi (e + 1)"
      using ilog2_bounds(1)[OF xpos] lt by linarith
    then have "ilog2 x < e + 1" by (rule pow2_less_imp)
    then have Ee: "E \<le> e" using e by (simp add: E_def)
    have "x / ulp x = of_int m * (2 powi (e - 52) / 2 powi (E - 52))"
      unfolding u by (simp add: x)
    also have "2 powi (e - 52) / 2 powi (E - 52) = (2::rat) powi ((e - 52) - (E - 52))"
      by (rule power_int_diff[symmetric]) simp
    also have "\<dots> = 2 ^ nat (e - E)" using Ee by (simp add: power_int_def)
    also have "of_int m * (2::rat) ^ nat (e - E) = of_int (m * 2 ^ nat (e - E))" by simp
    finally show ?thesis by blast
  qed
  then obtain j where j: "x / ulp x = of_int j" by blast
  have "of_int (round_even (x / ulp x)) * ulp x = x"
    unfolding j round_even_of_int using j[symmetric] by simp
  then show ?thesis using fin by (simp add: round_pos_def)
qed

lemma round_pos_repr:
  assumes "0 < x"
  shows "0 \<le> round_even (x / ulp x)" and "round_even (x / ulp x) \<le> 2 ^ 53"
proof -
  define E where "E = max (ilog2 x) (- 1022)"
  have u: "ulp x = 2 powi (E - 52)" by (simp add: ulp_def E_def)
  have "(of_int 0 :: rat) \<le> x / ulp x" using assms by simp
  then show "0 \<le> round_even (x / ulp x)" by (rule round_even_mono_lower)
  have "x < 2 powi (ilog2 x + 1)" using ilog2_bounds(2)[OF assms] .
  also have "\<dots> \<le> 2 powi (E + 1)"
    by (rule power_int_increasing) (simp_all add: E_def)
  also have "\<dots> = 2 powi (53 + (E - 52))"
    by (rule arg_cong[where f = "power_int 2"]) simp
  also have "\<dots> = 2 powi 53 * 2 powi (E - 52)" by (rule power_int_add) simp
  finally have "x < 2 ^ 53 * ulp x" by (simp add: u)
  then have "x / ulp x \<le> of_int (2 ^ 53)" by (simp add: field_simps)
  then show "round_even (x / ulp x) \<le> 2 ^ 53" by (rule round_even_mono_upper)
qed

lemma round_pos_idem:
  assumes "0 < x" and "round_pos x = Fin z"
  shows "z = 0 \<or> (0 < z \<and> round_pos z = Fin z)"
proof -
  define m where "m = round_even (x / ulp x)"
  define E where "E = max (ilog2 x) (- 1022)"
  have u: "ulp x = 2 powi (E - 52)" by (simp add: ulp_def E_def)
  have z: "z = of_int m * 2 powi (E - 52)" "z < 2 ^ 1024"
    using assms(2) by (auto simp: round_pos_def m_def u split: if_splits)
  have mb: "0 \<le> m" "m \<le> 2 ^ 53" using round_pos_repr[OF assms(1)] by (simp_all add: m_def)
  show ?thesis
  proof (cases "m = 0")
    case True
    then show ?thesis by (simp add: z)
  next
    case False
    then have mp: "0 < m" using mb(1) by simp
    have "- 1022 \<le> E" by (simp add: E_def)
    from round_pos_exact[OF mp mb(2) this z] mp show ?thesis by (simp add: z(1))
  qed
qed

lemma xneg_xneg [simp]: "xneg (xneg a) = a"
  by (cases a) simp_all

lemma dbl_zero [simp]: "dbl 0 = Fin 0"
  by (simp add: dbl_def)


lemma dbl_idem:
  assumes "dbl x = Fin z"
  shows "dbl z = Fin z"
proof -
  consider "0 < x" | "x = 0" | "x < 0" by linarith
  then show ?thesis
  proof cases
    case 1
    then have "round_pos x = Fin z" using assms by (simp add: dbl_def)
    from round_pos_idem[OF 1 this] show ?thesis by (auto simp: dbl_def)
  next
    case 2
    then show ?thesis using assms by simp
  next
    case 3
    then have "xneg (round_pos (- x)) = Fin z" using assms by (simp add: dbl_def)
    then have r: "round_pos (- x) = Fin (- z)" by (cases "round_pos (- x)") simp_all
    from 3 have "0 < - x" by simp
    from round_pos_idem[OF this r] show ?thesis by (auto simp: dbl_def)
  qed
qed

lemma dbl_of_int:
  assumes "\<bar>n\<bar> \<le> 2 ^ 53"
  shows "dbl (of_int n) = Fin (of_int n)"
proof -
  have pos: "round_pos (of_int m) = Fin (of_int m)" if "0 < m" "m \<le> 2 ^ 53" for m
  proof -
    have "(of_int m :: rat) \<le> of_int (2 ^ 53)" using that(2) by (simp only: of_int_le_iff)
    then have "(of_int m :: rat) < 2 ^ 1024" by simp
    then show ?thesis using round_pos_exact[OF that, of 52 "of_int m"] by simp
  qed
  consider "0 < n" | "n = 0" | "n < 0" by linarith
  then show ?thesis
  proof cases
    case 1
    then show ?thesis using pos[of n] assms by (simp add: dbl_def)
  next
    case 2
    then show ?thesis by simp
  next
    case 3
    then show ?thesis using pos[of "- n"] assms by (simp add: dbl_def)
  qed
qed

lemma round_pos_error:
  assumes "0 < x" and "x \<le> 2 ^ 1023"
  shows "\<exists>z. round_pos x = Fin z \<and> \<bar>z - x\<bar> \<le> x / 2 ^ 53 + 2 powi (- 1075)"
proof -
  define z where "z = of_int (round_even (x / ulp x)) * ulp x"
  have "\<bar>of_int (round_even (x / ulp x)) - x / ulp x\<bar> * ulp x \<le> 1 / 2 * ulp x"
    by (intro mult_right_mono round_even_error) simp
  also have "\<bar>of_int (round_even (x / ulp x)) - x / ulp x\<bar> * ulp x = \<bar>z - x\<bar>"
  proof -
    have "\<bar>of_int (round_even (x / ulp x)) - x / ulp x\<bar> * ulp x
        = \<bar>(of_int (round_even (x / ulp x)) - x / ulp x) * ulp x\<bar>"
      by (simp add: abs_mult)
    also have "(of_int (round_even (x / ulp x)) - x / ulp x) * ulp x = z - x"
      by (simp add: z_def field_simps)
    finally show ?thesis .
  qed
  finally have half: "\<bar>z - x\<bar> \<le> ulp x / 2" by simp
  have ub: "ulp x / 2 \<le> x / 2 ^ 53 + 2 powi (- 1075)"
  proof (cases "- 1022 \<le> ilog2 x")
    case True
    then have "ulp x = 2 powi (ilog2 x - 52)" by (simp add: ulp_def max_def)
    also have "\<dots> = 2 powi (ilog2 x) / 2 powi 52" by (rule power_int_diff) simp
    finally have "ulp x / 2 = 2 powi (ilog2 x) / 2 ^ 53" by simp
    also have "\<dots> \<le> x / 2 ^ 53"
      using ilog2_bounds(1)[OF assms(1)] by (simp add: divide_right_mono)
    also have "\<dots> \<le> x / 2 ^ 53 + 2 powi (- 1075)" by simp
    finally show ?thesis .
  next
    case False
    then have "ulp x = 2 powi (- 1074)" by (simp add: ulp_def max_def)
    also have "\<dots> = 2 powi (- 1075 + 1)"
      by (rule arg_cong[where f = "power_int 2"]) simp
    also have "\<dots> = 2 powi (- 1075) * 2 powi 1" by (rule power_int_add) simp
    finally have "ulp x / 2 = 2 powi (- 1075)" by simp
    then show ?thesis using assms(1) by simp
  qed
  have small: "(2::rat) powi (- 1075) \<le> 1"
    using power_int_increasing[of "- 1075" 0 "2::rat"] by simp
  have "z \<le> x + (x / 2 ^ 53 + 2 powi (- 1075))" using half ub by linarith
  also have "\<dots> \<le> 2 ^ 1023 + (2 ^ 1023 / 2 ^ 53 + 1)"
    using assms(2) small by (intro add_mono divide_right_mono) simp_all
  also have "\<dots> < 2 ^ 1024" by simp
  finally have "round_pos x = Fin z" by (simp add: round_pos_def z_def)
  then show ?thesis using half ub by (intro exI[of _ z]) linarith
qed

lemma dbl_error:
  assumes "\<bar>x\<bar> \<le> 2 ^ 1023"
  shows "\<exists>z. dbl x = Fin z \<and> \<bar>z - x\<bar> \<le> \<bar>x\<bar> / 2 ^ 53 + 2 powi (- 1075)"
proof -
  consider "0 < x" | "x = 0" | "x < 0" by linarith
  then show ?thesis
  proof cases
    case 1
    then show ?thesis using round_pos_error[of x] assms by (simp add: dbl_def)
  next
    case 2
    then show ?thesis by simp
  next
    case 3
    then have "0 < - x" "- x \<le> 2 ^ 1023" using assms by simp_all
    from round_pos_error[OF this] obtain z where
      z: "round_pos (- x) = Fin z" "\<bar>z - (- x)\<bar> \<le> - x / 2 ^ 53 + 2 powi (- 1075)" by blast
    have "\<bar>- z - x\<bar> = \<bar>z - (- x)\<bar>" by (simp add: abs_if)
    then show ?thesis using 3 z by (intro exI[of _ "- z"]) (simp add: dbl_def)
  qed
qed

section \<open>Doubles on the safe integers\<close>

text \<open>
  On the integers of magnitude below \<open>2^53\<close> the arithmetic of doubles is the arithmetic of
  integers: sums, differences and products that are such integers are exact, and the floor
  of a rounded quotient is the floor of the quotient.
\<close>

lemma dbl_whole: "safe n \<Longrightarrow> dbl (of_int n) = whole n"
  by (rule dbl_of_int) (simp add: safe_def abs_if)

lemma fadd_whole: "safe (a + b) \<Longrightarrow> fadd (whole a) (whole b) = whole (a + b)"
  using dbl_whole[of "a + b"] by simp

lemma fsub_whole: "safe (a - b) \<Longrightarrow> fsub (whole a) (whole b) = whole (a - b)"
  using dbl_whole[of "a - b"] by (simp add: fsub_def)

lemma fmul_whole: "safe (a * b) \<Longrightarrow> fmul (whole a) (whole b) = whole (a * b)"
  using dbl_whole[of "a * b"] by simp

lemma flt_whole: "flt (whole a) (whole b) \<longleftrightarrow> a < b"
  by simp

lemma feq_whole: "feq (whole a) (whole b) \<longleftrightarrow> a = b"
  by (simp add: feq_def)

lemma fle_whole: "fle (whole a) (whole b) \<longleftrightarrow> a \<le> b"
  by (auto simp: fle_def feq_def)

lemma fmin_whole: "fmin (whole a) (whole b) = whole (min a b)"
  by (simp add: fmin_def min_def)

lemma ffloor_whole: "ffloor (whole a) = whole a"
  by simp

lemma ffloor_fdiv_whole:
  assumes a: "safe a" and b: "safe b" "b \<noteq> 0"
  shows "ffloor (fdiv (whole a) (whole b)) = whole (a div b)"
proof -
  define q :: rat where "q = of_int a / of_int b"
  define d :: rat where "d = of_int \<bar>b\<bar>"
  have fd: "fdiv (whole a) (whole b) = dbl q" using b(2) by (simp add: q_def)
  have fl: "\<lfloor>q\<rfloor> = a div b" by (simp add: q_def floor_divide_of_int_eq)
  have "1 \<le> \<bar>b\<bar>" using b(2) by simp
  then have "(of_int 1 :: rat) \<le> of_int \<bar>b\<bar>" by (simp only: of_int_le_iff)
  then have d1: "1 \<le> d" by (simp add: d_def)
  have dpos: "0 < d" using d1 by simp
  have "\<bar>b\<bar> \<le> 2 ^ 53 - 1" using b(1) by (simp add: safe_def abs_if)
  then have "(of_int \<bar>b\<bar> :: rat) \<le> of_int (2 ^ 53 - 1)" by (simp only: of_int_le_iff)
  then have dle: "d \<le> 2 ^ 53 - 1" by (simp add: d_def)
  have "\<bar>a\<bar> \<le> 2 ^ 53 - 1" using a by (simp add: safe_def abs_if)
  then have "(of_int \<bar>a\<bar> :: rat) \<le> of_int (2 ^ 53 - 1)" by (simp only: of_int_le_iff)
  then have ale: "\<bar>of_int a :: rat\<bar> \<le> 2 ^ 53 - 1" by simp
  have qabs: "\<bar>q\<bar> = \<bar>of_int a\<bar> / d" by (simp add: q_def d_def)
  show ?thesis
  proof (cases "a mod b = 0")
    case True
    then have ab: "a = b * (a div b)" by auto
    have "q = of_int (b * (a div b)) / of_int b" using ab by (simp add: q_def)
    then have qe: "q = of_int (a div b)" using b(2) by simp
    have "1 * \<bar>a div b\<bar> \<le> \<bar>b\<bar> * \<bar>a div b\<bar>"
      using \<open>1 \<le> \<bar>b\<bar>\<close> by (intro mult_right_mono) simp_all
    then have "\<bar>a div b\<bar> \<le> \<bar>b\<bar> * \<bar>a div b\<bar>" by simp
    also have "\<dots> = \<bar>a\<bar>" using ab by (metis abs_mult)
    finally have "safe (a div b)" using a by (simp add: safe_def abs_if split: if_splits)
    then show ?thesis unfolding fd qe by (simp add: dbl_whole)
  next
    case False
    define n where "n = a div b"
    define r where "r = a mod b"
    have anr: "a = b * n + r" by (simp add: n_def r_def)
    have qn: "q - of_int n = of_int r / of_int b"
      using b(2) by (simp add: q_def anr field_simps)
    have frac: "1 / d \<le> of_int r / of_int b \<and> of_int r / of_int b \<le> 1 - 1 / d"
    proof (cases "0 < b")
      case True
      then have "0 \<le> r" "r < b" by (simp_all add: r_def)
      then have "1 \<le> r" "r \<le> b - 1" using False by (simp_all add: r_def)
      then have "(of_int 1 :: rat) \<le> of_int r" "(of_int r :: rat) \<le> of_int (b - 1)"
        by (simp_all only: of_int_le_iff)
      moreover have "d = of_int b" using True by (simp add: d_def)
      ultimately show ?thesis using dpos by (simp add: field_simps)
    next
      case F: False
      then have bneg: "b < 0" using b(2) by simp
      then have "r \<le> 0" "b < r" by (simp_all add: r_def)
      then have "r \<le> - 1" "b + 1 \<le> r" using False by (simp_all add: r_def)
      then have "(of_int r :: rat) \<le> of_int (- 1)" "(of_int (b + 1) :: rat) \<le> of_int r"
        by (simp_all only: of_int_le_iff)
      moreover have "of_int b = - d" using bneg by (simp add: d_def)
      ultimately show ?thesis using dpos by (simp add: field_simps)
    qed
    have "\<bar>of_int a :: rat\<bar> / d \<le> \<bar>of_int a\<bar> / 1"
      using d1 by (intro divide_left_mono) simp_all
    then have "\<bar>q\<bar> \<le> \<bar>of_int a\<bar>" unfolding qabs by simp
    then have "\<bar>q\<bar> \<le> 2 ^ 1023" using ale by simp
    from dbl_error[OF this] obtain z where
      z: "dbl q = Fin z" "\<bar>z - q\<bar> \<le> \<bar>q\<bar> / 2 ^ 53 + 2 powi (- 1075)" by blast
    have small: "(2::rat) powi (- 1075) \<le> 1 / 2 ^ 106" by simp
    have "\<bar>q\<bar> / 2 ^ 53 + 2 powi (- 1075) < 1 / d"
    proof -
      have "\<bar>q\<bar> / 2 ^ 53 \<le> (2 ^ 53 - 1) / d / 2 ^ 53"
        unfolding qabs using ale dpos by (intro divide_right_mono) simp_all
      moreover have "(2::rat) powi (- 1075) < 1 / d / 2 ^ 53"
      proof -
        have "d * 2 ^ 53 < 2 ^ 106" using dle by simp
        then have "1 / 2 ^ 106 < 1 / (d * 2 ^ 53)"
          using dpos by (intro divide_strict_left_mono) simp_all
        then show ?thesis using small by simp
      qed
      moreover have "(2 ^ 53 - 1) / d / 2 ^ 53 + 1 / d / 2 ^ 53 = 1 / d"
        using dpos by (simp add: field_simps)
      ultimately show ?thesis by linarith
    qed
    with z(2) have "\<bar>z - q\<bar> < 1 / d" by linarith
    then have "of_int n < z" "z < of_int n + 1" using frac qn by (simp_all add: abs_if split: if_splits)
    then have "\<lfloor>z\<rfloor> = n" by (intro floor_unique) simp_all
    then show ?thesis unfolding fd z(1) by (simp add: n_def)
  qed
qed

section \<open>The square root, and the rounding of given numbers\<close>

lemma sqrt_search_bounds:
  "0 \<le> lo \<Longrightarrow> 0 \<le> hi \<Longrightarrow> lo * lo \<le> n \<Longrightarrow> n < hi * hi \<Longrightarrow>
     0 \<le> sqrt_search lo hi n
     \<and> sqrt_search lo hi n * sqrt_search lo hi n \<le> n
     \<and> n < (sqrt_search lo hi n + 1) * (sqrt_search lo hi n + 1)"
proof (induction lo hi n rule: sqrt_search.induct)
  case (1 lo hi n)
  have lt: "lo < hi"
  proof (rule ccontr)
    assume "\<not> lo < hi"
    then have "hi * hi \<le> lo * lo" using "1.prems"(2) by (intro mult_mono) simp_all
    with "1.prems" show False by simp
  qed
  show ?case
  proof (cases "hi \<le> lo + 1")
    case True
    with lt have "hi = lo + 1" by simp
    with True "1.prems" show ?thesis by (simp add: sqrt_search.simps[of lo hi n])
  next
    case False
    have mid: "0 \<le> (lo + hi) div 2" using "1.prems"(1,2) by simp
    show ?thesis
    proof (cases "((lo + hi) div 2) * ((lo + hi) div 2) \<le> n")
      case True
      from "1.IH"(1)[OF False True mid "1.prems"(2) True "1.prems"(4)] False True
      show ?thesis by (simp add: sqrt_search.simps[of lo hi n])
    next
      case F2: False
      then have "n < ((lo + hi) div 2) * ((lo + hi) div 2)" by simp
      from "1.IH"(2)[OF False F2 "1.prems"(1) mid "1.prems"(3) this] False F2
      show ?thesis by (simp add: sqrt_search.simps[of lo hi n])
    qed
  qed
qed

lemma isqrt_bounds:
  assumes "0 \<le> n"
  shows "0 \<le> isqrt n" and "isqrt n * isqrt n \<le> n" and "n < (isqrt n + 1) * (isqrt n + 1)"
proof -
  have "n < (n + 1) * (n + 1)"
  proof -
    have "0 \<le> n * n" by simp
    moreover have "(n + 1) * (n + 1) = n * n + 2 * n + 1" by (simp add: algebra_simps)
    ultimately show ?thesis using assms by linarith
  qed
  from sqrt_search_bounds[of 0 "n + 1" n] this assms
  show "0 \<le> isqrt n" and "isqrt n * isqrt n \<le> n" and "n < (isqrt n + 1) * (isqrt n + 1)"
    by (simp_all add: isqrt_def)
qed

lemma isqrt_is_floor_of_sqrt:
  assumes "0 \<le> n"
  shows "isqrt n = \<lfloor>sqrt (of_int n)\<rfloor>"
proof -
  note r = isqrt_bounds[OF assms]
  have "(of_int (isqrt n) :: real) * of_int (isqrt n) \<le> of_int n"
    using r(2) by (metis of_int_mult of_int_le_iff)
  then have lo: "of_int (isqrt n) \<le> sqrt (of_int n)"
    using r(1) by (intro real_le_rsqrt) (simp add: power2_eq_square)
  have "(of_int n :: real) < of_int (isqrt n + 1) * of_int (isqrt n + 1)"
    using r(3) by (metis of_int_mult of_int_less_iff)
  then have hi: "sqrt (of_int n) < of_int (isqrt n + 1)"
    using r(1) by (intro real_less_lsqrt) (simp_all add: power2_eq_square)
  have "\<lfloor>sqrt (of_int n)\<rfloor> = isqrt n"
    using lo hi by (intro floor_unique) simp_all
  then show ?thesis by simp
qed

lemma square_less_imp_less:
  fixes a b :: int
  assumes "a * a < b * b" and "0 \<le> b"
  shows "a < b"
proof (rule ccontr)
  assume "\<not> a < b"
  then have "b \<le> a" by simp
  then have "b * b \<le> a * a" using assms(2) by (intro mult_mono) simp_all
  with assms(1) show False by simp
qed

text \<open>
  \<^verbatim>\<open>Math.floor(Math.sqrt(n))\<close> is the integer square root for the integers below
  \<open>2^52\<close>. (At \<open>n = (2^26 + 1)^2 - 1\<close>, just above, the rounded square root is the
  integer \<open>2^26 + 1\<close>.)
\<close>

lemma floor_sqrt_whole:
  assumes "0 \<le> n" and "n < 2 ^ 52"
  shows "ffloor (fsqrt (whole n)) = whole (isqrt n)"
proof (cases "n = 0")
  case True
  then show ?thesis by (simp add: isqrt_def sqrt_search.simps)
next
  case False
  then have n1: "1 \<le> n" using assms(1) by simp
  define x :: rat where "x = of_int n"
  have x1: "1 \<le> x" using n1 by (simp add: x_def)
  then have xpos: "0 < x" by simp
  define L where "L = ilog2 x"
  note Lb = ilog2_bounds[OF xpos, folded L_def]
  have L0: "0 \<le> L"
  proof (rule ccontr)
    assume "\<not> 0 \<le> L"
    then have "L + 1 \<le> 0" by simp
    then have "(2::rat) powi (L + 1) \<le> 2 powi 0" by (intro power_int_increasing) simp_all
    with Lb(2) x1 show False by simp
  qed
  have "(of_int n :: rat) < of_int (2 ^ 52)" using assms(2) by (simp only: of_int_less_iff)
  then have "x < 2 powi 52" by (simp add: x_def)
  with Lb(1) have "(2::rat) powi L < 2 powi 52" by linarith
  then have L51: "L < 52" by (rule pow2_less_imp)
  define e where "e = L div 2"
  have e: "0 \<le> e" "e \<le> 25" "L + 1 \<le> 2 * (e + 1)" using L0 L51 by (simp_all add: e_def)
  define Q :: int where "Q = 2 ^ nat (52 - e)"
  have Qpos: "0 < Q" by (simp add: Q_def)
  have q: "(2::rat) powi (e - 52) = 1 / of_int Q"
    using e by (simp add: Q_def power_int_def field_simps)
  define f where "f = isqrt (n * Q * Q)"
  define r where "r = isqrt n"
  have nQQ: "0 \<le> n * Q * Q" using assms(1) Qpos by (intro mult_nonneg_nonneg) simp_all
  note fb = isqrt_bounds[OF nQQ, folded f_def]
  note rb = isqrt_bounds[OF assms(1), folded r_def]
  define N :: rat where "N = x / (2 powi (e - 52) * 2 powi (e - 52))"
  have N: "N = of_int (n * Q * Q)" using Qpos by (simp add: N_def q x_def)
  define h :: rat where "h = (of_int f + 1 / 2) * (of_int f + 1 / 2)"
  define m where "m = (if N < h then f else if h < N then f + 1 else if even f then f else f + 1)"
  have sp: "sqrt_pos x = of_int m / of_int Q"
  proof -
    have E2: "(2::rat) powi (ilog2 x div 2 - 52) = 1 / of_int Q"
      using q unfolding e_def L_def .
    have E1: "x / (1 / of_int Q * (1 / of_int Q)) = (of_int (n * Q * Q) :: rat)"
      using Qpos by (simp add: x_def)
    show ?thesis
      unfolding sqrt_pos_def Let_def E2 E1 floor_of_int
      by (simp add: m_def h_def f_def N)
  qed
  have rQ: "r + 1 \<le> Q"
  proof -
    have "x < 2 powi (L + 1)" using Lb(2) .
    also have "\<dots> \<le> 2 powi (2 * (e + 1))" using e(3) by (intro power_int_increasing) simp_all
    also have "\<dots> = of_int (2 ^ nat (2 * (e + 1)))" using e(1) by (simp add: power_int_def)
    finally have "n < 2 ^ nat (2 * (e + 1))" unfolding x_def by (simp only: of_int_less_iff)
    also have "nat (2 * (e + 1)) = nat (e + 1) + nat (e + 1)" using e(1) by simp
    finally have "n < 2 ^ nat (e + 1) * 2 ^ nat (e + 1)" by (simp add: power_add)
    with rb(2) have "r * r < 2 ^ nat (e + 1) * 2 ^ nat (e + 1)" by linarith
    then have "r < 2 ^ nat (e + 1)" by (rule square_less_imp_less) simp
    moreover have "(2::int) ^ nat (e + 1) \<le> 2 ^ nat (52 - e)"
      using e by (intro power_increasing) simp_all
    ultimately show ?thesis unfolding Q_def by linarith
  qed
  have lower: "r * Q \<le> m"
  proof -
    have "(r * Q) * (r * Q) = (r * r) * (Q * Q)" by (simp add: algebra_simps)
    also have "\<dots> \<le> n * (Q * Q)" using rb(2) by (intro mult_right_mono) simp_all
    also have "\<dots> < (f + 1) * (f + 1)" using fb(3) by (simp add: mult.assoc)
    finally have sq: "(r * Q) * (r * Q) < (f + 1) * (f + 1)" .
    have "0 \<le> f + 1" using fb(1) by simp
    with sq have "r * Q < f + 1" by (rule square_less_imp_less)
    moreover have "f \<le> m" by (simp add: m_def)
    ultimately show ?thesis by simp
  qed
  define T where "T = (r + 1) * Q"
  have nT: "n * Q * Q \<le> T * T - Q * Q"
  proof -
    have "n \<le> (r + 1) * (r + 1) - 1" using rb(3) by simp
    then have "n * (Q * Q) \<le> ((r + 1) * (r + 1) - 1) * (Q * Q)"
      by (intro mult_right_mono) simp_all
    then show ?thesis by (simp add: T_def algebra_simps)
  qed
  have "0 < Q * Q" using Qpos by simp
  with nT fb(2) have "f * f < T * T" by linarith
  moreover have "0 \<le> T" using rb(1) Qpos by (simp add: T_def)
  ultimately have fT: "f < T" by (rule square_less_imp_less)
  have upper: "m < T"
  proof (rule ccontr)
    assume "\<not> m < T"
    then have mT: "T \<le> m" by simp
    have "m \<le> f + 1" by (simp add: m_def)
    with mT fT have fe: "f = T - 1" and mf: "m = f + 1" by simp_all
    from mf have "\<not> N < h" by (auto simp: m_def split: if_splits)
    then have "h \<le> N" by simp
    then have "(of_int f + 1 / 2) * (of_int f + 1 / 2) \<le> (of_int (n * Q * Q) :: rat)"
      by (simp add: h_def N)
    then have "(of_int (f * f + f) :: rat) < of_int (n * Q * Q)"
      by (simp add: algebra_simps)
    then have "f * f + f < n * Q * Q" by (simp only: of_int_less_iff)
    then have "(T - 1) * (T - 1) + (T - 1) + 1 \<le> T * T - Q * Q" using nT fe by simp
    then have "Q * Q + 1 \<le> T" by (simp add: algebra_simps)
    moreover have "T \<le> Q * Q" unfolding T_def using rQ Qpos by (intro mult_right_mono) simp_all
    ultimately show False by simp
  qed
  have "of_int r \<le> (of_int m :: rat) / of_int Q"
  proof -
    have "(of_int (r * Q) :: rat) \<le> of_int m" using lower by (simp only: of_int_le_iff)
    then show ?thesis using Qpos by (simp add: field_simps)
  qed
  moreover have "(of_int m :: rat) / of_int Q < of_int r + 1"
  proof -
    have "(of_int m :: rat) < of_int ((r + 1) * Q)" using upper unfolding T_def by (simp only: of_int_less_iff)
    then show ?thesis using Qpos by (simp add: field_simps)
  qed
  ultimately have "\<lfloor>(of_int m :: rat) / of_int Q\<rfloor> = r" by (intro floor_unique) simp_all
  moreover have "fsqrt (whole n) = Fin (sqrt_pos x)" using n1 by (simp add: x_def)
  ultimately show ?thesis by (simp add: sp r_def)
qed

lemma round_even_unique:
  assumes "\<bar>t - of_int m\<bar> < 1 / 2"
  shows "round_even t = m"
proof -
  have "\<bar>(of_int (round_even t) :: rat) - of_int m\<bar> < 1"
    using round_even_error[of t] assms by linarith
  then have "\<bar>(of_int (round_even t - m) :: rat)\<bar> < of_int 1" by simp
  then have "\<bar>round_even t - m\<bar> < 1" by (simp only: of_int_abs[symmetric] of_int_less_iff)
  then show ?thesis by simp
qed

lemma dbl_nearest:
  assumes "2 powi e \<le> x" and "x < 2 powi (e + 1)" and "- 1022 \<le> e" and "e \<le> 1022"
    and "\<bar>x - of_int m * 2 powi (e - 52)\<bar> < 2 powi (e - 52) / 2"
  shows "dbl x = Fin (of_int m * 2 powi (e - 52))"
proof -
  have x: "0 < x" using assms(1) zero_less_power_int[of "2::rat" e] by linarith
  have "ilog2 x = e" using assms(1,2) by (rule ilog2_unique)
  then have u: "ulp x = 2 powi (e - 52)" using assms(3) by (simp add: ulp_def)
  have "\<bar>x / ulp x - of_int m\<bar> = \<bar>x - of_int m * ulp x\<bar> / ulp x"
  proof -
    have "x / ulp x - of_int m = (x - of_int m * ulp x) / ulp x" by (simp add: field_simps)
    then show ?thesis by (simp add: abs_divide)
  qed
  also have "\<dots> < (ulp x / 2) / ulp x"
    using assms(5) unfolding u by (intro divide_strict_right_mono) simp_all
  finally have "\<bar>x / ulp x - of_int m\<bar> < 1 / 2" by simp
  then have m: "round_even (x / ulp x) = m" by (rule round_even_unique)
  have "of_int (round_even (x / ulp x)) \<le> (of_int (2 ^ 53) :: rat)"
    using round_pos_repr(2)[OF x] by (simp only: of_int_le_iff)
  then have "of_int (round_even (x / ulp x)) * ulp x \<le> 2 ^ 53 * ulp x"
    by (intro mult_right_mono) simp_all
  also have "\<dots> = 2 powi 53 * 2 powi (e - 52)" by (simp add: u)
  also have "\<dots> = 2 powi (53 + (e - 52))" by (rule power_int_add[symmetric]) simp
  also have "\<dots> \<le> 2 powi 1023" using assms(4) by (intro power_int_increasing) simp_all
  also have "\<dots> < 2 ^ 1024" by simp
  finally have "round_pos x = Fin (of_int m * ulp x)" by (simp add: round_pos_def m)
  then show ?thesis using x by (simp add: dbl_def u)
qed



section \<open>Arithmetic of the floors\<close>

lemma fee_rat: "\<lfloor>of_int a / (10000 :: rat)\<rfloor> = a div 10000"
  using floor_divide_of_int_eq[of a 10000, where ?'a = rat] by simp

lemma fee_bounds:
  fixes amt f :: int
  assumes "0 \<le> amt" "0 \<le> f" "f \<le> 10000"
  shows "0 \<le> amt * f div 10000" "amt * f div 10000 \<le> amt"
proof -
  show "0 \<le> amt * f div 10000" using assms by (simp add: pos_imp_zdiv_nonneg_iff)
  have "amt * f \<le> amt * 10000" using assms by (simp add: mult_left_mono)
  then have "amt * f div 10000 \<le> amt * 10000 div 10000" by (rule zdiv_mono1) simp
  then show "amt * f div 10000 \<le> amt" by simp
qed

lemma mult_div_le:
  fixes a n :: int
  assumes "0 < a"
  shows "a * (n div a) = n - n mod a" "a * (n div a) \<le> n"
proof -
  show eq: "a * (n div a) = n - n mod a" by (simp add: minus_mod_eq_mult_div)
  have "0 \<le> n mod a" using assms by simp
  with eq show "a * (n div a) \<le> n" by linarith
qed

lemma spec_fee_eq: "spec_fee fbps amt = amt * fbps div 10000"
  unfolding spec_fee_def by (simp only: fee_rat)

lemma spec_swap_out_eq:
  "spec_swap_out rin rout fbps amt =
     rout - (rin * rout) div (rin + (amt - amt * fbps div 10000))"
  unfolding spec_swap_out_def Let_def
  by (simp only: spec_fee_eq floor_divide_of_int_eq)

section \<open>Liquidity pools: what a call changes\<close>

lemma recordPrice_fields [simp]:
  "reserveA (recordPrice p) = reserveA p" "reserveB (recordPrice p) = reserveB p"
  "k (recordPrice p) = k p" "feeBps (recordPrice p) = feeBps p"
  "totalLpShares (recordPrice p) = totalLpShares p" "lpHolders (recordPrice p) = lpHolders p"
  by (simp_all add: recordPrice_def Let_def)

text \<open>
  The field \<open>k\<close> is the product of the reserves, as doubles multiply, in every state a pool
  can reach: the constructor sets all three to \<open>0\<close>, and each of the four methods that write
  a reserve writes \<open>k\<close> from the new reserves.
\<close>

lemma k_is_product_new:
  "k (new_pool ta tb f) = fmul (reserveA (new_pool ta tb f)) (reserveB (new_pool ta tb f))"
  by (simp add: new_pool_def)

lemma k_is_product:
  "k (snd (addLiquidity p u a b)) =
     fmul (reserveA (snd (addLiquidity p u a b))) (reserveB (snd (addLiquidity p u a b)))"
  "k p = fmul (reserveA p) (reserveB p) \<Longrightarrow>
     k (snd (removeLiquidity p u s)) =
       fmul (reserveA (snd (removeLiquidity p u s))) (reserveB (snd (removeLiquidity p u s)))"
  "k p = fmul (reserveA p) (reserveB p) \<Longrightarrow>
     k (snd (swapAtoB p a)) = fmul (reserveA (snd (swapAtoB p a))) (reserveB (snd (swapAtoB p a)))"
  "k p = fmul (reserveA p) (reserveB p) \<Longrightarrow>
     k (snd (swapBtoA p a)) = fmul (reserveA (snd (swapBtoA p a))) (reserveB (snd (swapBtoA p a)))"
  by (simp_all add: addLiquidity_def removeLiquidity_def swapAtoB_def swapBtoA_def
        Let_def
        del: fmul.simps fadd.simps fdiv.simps ffloor.simps)

lemma swap_in_rangeD:
  assumes "swap_in_range rin rout fbps amt"
  shows "safe rin" "safe rout" "safe fbps" "safe amt" "safe (amt * fbps)"
    "safe (amt - amt * fbps div 10000)" "safe (rin + (amt - amt * fbps div 10000))"
    "safe (rin * rout)"
    "safe (rout - rin * rout div (rin + (amt - amt * fbps div 10000)))"
    "safe ((rin + (amt - amt * fbps div 10000)) * (rin * rout div (rin + (amt - amt * fbps div 10000))))"
  using assms by (simp_all add: swap_in_range_def Let_def)

text \<open>
  A swap whose numbers are safe integers is the computation on integers: the fee, the new
  reserves and the amount paid out are those of integer arithmetic.
\<close>

lemma swap_steps:
  fixes a b f x :: int
  assumes rng: "swap_in_range a b f x" and new: "a + (x - x * f div 10000) \<noteq> 0"
  defines "fee1 \<equiv> x * f div 10000"
  defines "newA \<equiv> a + (x - fee1)"
  defines "newB \<equiv> a * b div newA"
  shows "ffloor (fdiv (fmul (whole x) (whole f)) (Fin 10000)) = whole fee1"
    and "fadd (whole a) (fsub (whole x) (whole fee1)) = whole newA"
    and "ffloor (fdiv (fmul (whole a) (whole b)) (whole newA)) = whole newB"
    and "fsub (whole b) (whole newB) = whole (b - newB)"
    and "fmul (whole newA) (whole newB) = whole (newA * newB)"
proof -
  note r = swap_in_rangeD[OF rng]
  have s10000: "safe 10000" by (simp add: safe_def)
  have m1: "fmul (whole x) (whole f) = whole (x * f)" using r(5) by (rule fmul_whole)
  show fee: "ffloor (fdiv (fmul (whole x) (whole f)) (Fin 10000)) = whole fee1"
    unfolding m1 fee1_def using ffloor_fdiv_whole[OF r(5) s10000] by simp
  have s1: "fsub (whole x) (whole fee1) = whole (x - fee1)"
    using r(6) unfolding fee1_def by (rule fsub_whole)
  show "fadd (whole a) (fsub (whole x) (whole fee1)) = whole newA"
    unfolding s1 newA_def using r(7) unfolding fee1_def by (rule fadd_whole)
  have m2: "fmul (whole a) (whole b) = whole (a * b)" using r(8) by (rule fmul_whole)
  have nA: "safe newA" "newA \<noteq> 0" using r(7) new by (simp_all add: newA_def fee1_def)
  show "ffloor (fdiv (fmul (whole a) (whole b)) (whole newA)) = whole newB"
    unfolding m2 newB_def using r(8) nA by (rule ffloor_fdiv_whole)
  show "fsub (whole b) (whole newB) = whole (b - newB)"
    using r(9) unfolding newB_def newA_def fee1_def by (rule fsub_whole)
  show "fmul (whole newA) (whole newB) = whole (newA * newB)"
    using r(10) unfolding newB_def newA_def fee1_def by (rule fmul_whole)
qed

lemma swapAtoB_whole:
  fixes a b f x :: int
  assumes fields: "reserveA p = whole a" "reserveB p = whole b" "feeBps p = whole f"
    and inv: "k p = fmul (reserveA p) (reserveB p)"
    and nz: "a \<noteq> 0" "b \<noteq> 0"
    and rng: "swap_in_range a b f x" and new: "a + (x - x * f div 10000) \<noteq> 0"
  defines "fee1 \<equiv> x * f div 10000"
  defines "newA \<equiv> a + (x - fee1)"
  defines "newB \<equiv> a * b div newA"
  shows "b - newB \<le> 0 \<Longrightarrow> swapAtoB p (whole x) = (Inl ZeroOutput, p)"
    and "0 < b - newB \<Longrightarrow>
           \<exists>rc p'. swapAtoB p (whole x) = (Inr rc, p')
             \<and> amountIn rc = whole x \<and> fee rc = whole fee1 \<and> amountOut rc = whole (b - newB)
             \<and> reserveA p' = whole newA \<and> reserveB p' = whole newB
             \<and> k p' = whole (newA * newB) \<and> feeBps p' = whole f"
proof -
  note st = swap_steps[OF rng new, folded fee1_def, folded newA_def, folded newB_def]
  have unf: "swapAtoB p (whole x) =
      (if fle (whole (b - newB)) (Fin 0) then (Inl ZeroOutput, p)
       else (Inr \<lparr>tokenIn = tokenA p, tokenOut = tokenB p, amountIn = whole x,
                  amountOut = whole (b - newB), fee = whole fee1,
                  impact = fsub (Fin 1) (fdiv (fmul (whole newB) (whole a)) (fmul (whole b) (whole newA))),
                  swap_trit = impact_trit
                    (fsub (Fin 1) (fdiv (fmul (whole newB) (whole a)) (fmul (whole b) (whole newA))))\<rparr>,
             recordPrice (p\<lparr>reserveA := whole newA, reserveB := whole newB,
                            k := whole (newA * newB),
                            feesCollected := fadd (feesCollected p) (whole fee1),
                            volume24h := fadd (volume24h p) (whole x),
                            swapCount := fadd (swapCount p) (Fin 1)\<rparr>)))"
    unfolding swapAtoB_def Let_def inv fields st
    using nz by (simp add: feq_def del: fmul.simps fadd.simps fdiv.simps ffloor.simps)
  show "b - newB \<le> 0 \<Longrightarrow> swapAtoB p (whole x) = (Inl ZeroOutput, p)"
    unfolding unf using fle_whole[of "b - newB" 0] by simp
  show "0 < b - newB \<Longrightarrow>
           \<exists>rc p'. swapAtoB p (whole x) = (Inr rc, p')
             \<and> amountIn rc = whole x \<and> fee rc = whole fee1 \<and> amountOut rc = whole (b - newB)
             \<and> reserveA p' = whole newA \<and> reserveB p' = whole newB
             \<and> k p' = whole (newA * newB) \<and> feeBps p' = whole f"
    unfolding unf using fle_whole[of "b - newB" 0] fields by simp
qed

lemma fmul_commute: "fmul x y = fmul y x"
  by (cases x; cases y) (simp_all add: mult.commute)

lemma swapBtoA_whole:
  fixes a b f x :: int
  assumes fields: "reserveA p = whole a" "reserveB p = whole b" "feeBps p = whole f"
    and inv: "k p = fmul (reserveA p) (reserveB p)"
    and nz: "a \<noteq> 0" "b \<noteq> 0"
    and rng: "swap_in_range b a f x" and new: "b + (x - x * f div 10000) \<noteq> 0"
  defines "fee1 \<equiv> x * f div 10000"
  defines "newB \<equiv> b + (x - fee1)"
  defines "newA \<equiv> b * a div newB"
  shows "a - newA \<le> 0 \<Longrightarrow> swapBtoA p (whole x) = (Inl ZeroOutput, p)"
    and "0 < a - newA \<Longrightarrow>
           \<exists>rc p'. swapBtoA p (whole x) = (Inr rc, p')
             \<and> amountIn rc = whole x \<and> fee rc = whole fee1 \<and> amountOut rc = whole (a - newA)
             \<and> reserveA p' = whole newA \<and> reserveB p' = whole newB
             \<and> k p' = whole (newB * newA) \<and> feeBps p' = whole f"
proof -
  note st = swap_steps[OF rng new, folded fee1_def, folded newB_def, folded newA_def]
  have inv': "k p = fmul (whole b) (whole a)" unfolding inv fields by (rule fmul_commute)
  have pr: "fmul (whole newA) (whole newB) = whole (newB * newA)"
    using st(5) by (simp only: fmul_commute[of "whole newA"])
  have unf: "swapBtoA p (whole x) =
      (if fle (whole (a - newA)) (Fin 0) then (Inl ZeroOutput, p)
       else (Inr \<lparr>tokenIn = tokenB p, tokenOut = tokenA p, amountIn = whole x,
                  amountOut = whole (a - newA), fee = whole fee1,
                  impact = fsub (Fin 1) (fdiv (fmul (whole newA) (whole b)) (fmul (whole a) (whole newB))),
                  swap_trit = impact_trit
                    (fsub (Fin 1) (fdiv (fmul (whole newA) (whole b)) (fmul (whole a) (whole newB))))\<rparr>,
             recordPrice (p\<lparr>reserveA := whole newA, reserveB := whole newB,
                            k := whole (newB * newA),
                            feesCollected := fadd (feesCollected p) (whole fee1),
                            volume24h := fadd (volume24h p) (whole x),
                            swapCount := fadd (swapCount p) (Fin 1)\<rparr>)))"
    unfolding swapBtoA_def Let_def inv' fields st pr
    using nz by (simp add: feq_def del: fmul.simps fadd.simps fdiv.simps ffloor.simps)
  show "a - newA \<le> 0 \<Longrightarrow> swapBtoA p (whole x) = (Inl ZeroOutput, p)"
    unfolding unf using fle_whole[of "a - newA" 0] by simp
  show "0 < a - newA \<Longrightarrow>
           \<exists>rc p'. swapBtoA p (whole x) = (Inr rc, p')
             \<and> amountIn rc = whole x \<and> fee rc = whole fee1 \<and> amountOut rc = whole (a - newA)
             \<and> reserveA p' = whole newA \<and> reserveB p' = whole newB
             \<and> k p' = whole (newB * newA) \<and> feeBps p' = whole f"
    unfolding unf using fle_whole[of "a - newA" 0] fields by simp
qed

lemma swap_Inr_reserves:
  "swapAtoB p amt = (Inr rc, p') \<Longrightarrow> \<not> feq (reserveA p) (Fin 0) \<and> \<not> feq (reserveB p) (Fin 0)"
  "swapBtoA p amt = (Inr rc, p') \<Longrightarrow> \<not> feq (reserveA p) (Fin 0) \<and> \<not> feq (reserveB p) (Fin 0)"
  by (auto simp: swapAtoB_def swapBtoA_def Let_def split: if_splits
        simp del: fmul.simps fadd.simps fdiv.simps ffloor.simps)

lemmas pool_fields = crwn_usdt_def crwn_btc_def

section \<open>Swaps\<close>

lemma big_pool_swap:
  "\<exists>rc p'. swapAtoB big_pool (Fin 2554957) = (Inr rc, p')
     \<and> amountOut rc = Fin 43512829
     \<and> reserveA p' = Fin 102549848 \<and> reserveB p' = Fin 1706487171"
proof -
  have fee1: "ffloor (fdiv (fmul (Fin 2554957) (Fin 20)) (Fin 10000)) = Fin 5109"
    using fmul_whole[of 2554957 20] ffloor_fdiv_whole[of 51099140 10000]
    by (simp add: safe_def del: fmul.simps fdiv.simps ffloor.simps)
  have af: "fsub (Fin 2554957) (Fin 5109) = Fin 2549848"
    using fsub_whole[of 2554957 5109] by (simp add: safe_def)
  have na: "fadd (Fin 100000000) (Fin 2549848) = Fin 102549848"
    using fadd_whole[of 100000000 2549848] by (simp add: safe_def)
  have q: "fdiv (Fin 175000000000000000) (Fin 102549848) = Fin 1706487171"
    using dbl_nearest[of 30 "175000000000000000 / 102549848" 7157525967273984] by simp
  have nb: "ffloor (Fin 1706487171) = Fin 1706487171"
    using ffloor_whole[of 1706487171] by simp
  have out: "fsub (Fin 1750000000) (Fin 1706487171) = Fin 43512829"
    using fsub_whole[of 1750000000 1706487171] by (simp add: safe_def)
  show ?thesis
    unfolding swapAtoB_def Let_def big_pool_def
    by (simp add: fee1 af na q nb out feq_def fle_def
          del: fmul.simps fadd.simps fdiv.simps ffloor.simps)
qed

text \<open>
  Claim C3, as stated: every swap on a pool with nonzero reserves pays out
  \<open>reserveB - floor(k / newA)\<close>. The code divides in doubles. In a pool with reserves of
  100,000,000 and 1,750,000,000 and a fee of 20 basis points, a swap of 2,554,957 has
  \<open>newA = 102,549,848\<close> and \<open>floor(k / newA) = 1,706,487,170\<close>, so that the steps of the
  specification pay out 43,512,830; the quotient of the doubles is rounded up to the integer
  1,706,487,171, and the code pays out 43,512,829.
\<close>

theorem swap_steps_counterexample:
  "reserveA big_pool = whole 100000000 \<and> reserveB big_pool = whole 1750000000
   \<and> feeBps big_pool = whole 20 \<and> k big_pool = whole (100000000 * 1750000000)
   \<and> spec_fee 20 2554957 = 5109
   \<and> 100000000 + (2554957 - spec_fee 20 2554957) = 102549848
   \<and> \<lfloor>(100000000 * 1750000000) / (102549848 :: rat)\<rfloor> = 1706487170
   \<and> spec_swap_out 100000000 1750000000 20 2554957 = 43512830
   \<and> (\<exists>rc p'. swapAtoB big_pool (whole 2554957) = (Inr rc, p')
         \<and> amountOut rc = whole 43512829 \<and> reserveB p' = whole 1706487171)"
proof -
  have "\<lfloor>(100000000 * 1750000000) / (102549848 :: rat)\<rfloor> = 1706487170"
    by (rule floor_unique) simp_all
  moreover have "\<exists>rc p'. swapAtoB big_pool (whole 2554957) = (Inr rc, p')
         \<and> amountOut rc = whole 43512829 \<and> reserveB p' = whole 1706487171"
    using big_pool_swap by auto
  ultimately show ?thesis
    by (simp add: big_pool_def spec_fee_eq spec_swap_out_eq)
qed

text \<open>
  Claim C3, amended. On a pool whose reserves are nonzero integers, with \<open>k\<close> the product of the
  reserves, a swap of an integer amount computes what the specification's steps compute,
  provided every number it computes is a safe integer (of magnitude below \<open>2^53\<close>, where
  the arithmetic of doubles is exact) and the new reserve of the token paid in is not
  \<open>0\<close>: the fee is \<open>floor(amountIn * feeBps / 10000)\<close>, the reserve of the token paid in
  grows by the amount after the fee, and the amount paid out is the other reserve minus
  \<open>floor(k / newIn)\<close>. When that amount is positive the swap returns it and commits the
  two reserves; otherwise it throws the zero-output error and the pool is the pool before
  the call. The same holds for the swap from B to A with the reserves exchanged.
\<close>

theorem swap_follows_spec:
  fixes a b f x :: int
  assumes "reserveA p = whole a" and "reserveB p = whole b" and "feeBps p = whole f"
    and "k p = fmul (reserveA p) (reserveB p)" and "a \<noteq> 0" and "b \<noteq> 0"
  shows "(swap_in_range a b f x \<and> a + (x - spec_fee f x) \<noteq> 0 \<longrightarrow>
           (if 0 < spec_swap_out a b f x
            then \<exists>rc p'. swapAtoB p (whole x) = (Inr rc, p')
                   \<and> fee rc = whole (spec_fee f x)
                   \<and> amountOut rc = whole (spec_swap_out a b f x)
                   \<and> reserveA p' = whole (a + (x - spec_fee f x))
                   \<and> reserveB p' = whole (b - spec_swap_out a b f x)
            else swapAtoB p (whole x) = (Inl ZeroOutput, p))) \<and>
         (swap_in_range b a f x \<and> b + (x - spec_fee f x) \<noteq> 0 \<longrightarrow>
           (if 0 < spec_swap_out b a f x
            then \<exists>rc p'. swapBtoA p (whole x) = (Inr rc, p')
                   \<and> fee rc = whole (spec_fee f x)
                   \<and> amountOut rc = whole (spec_swap_out b a f x)
                   \<and> reserveB p' = whole (b + (x - spec_fee f x))
                   \<and> reserveA p' = whole (a - spec_swap_out b a f x)
            else swapBtoA p (whole x) = (Inl ZeroOutput, p)))"
proof (intro conjI impI)
  assume h: "swap_in_range a b f x \<and> a + (x - spec_fee f x) \<noteq> 0"
  then have rng: "swap_in_range a b f x" and new: "a + (x - x * f div 10000) \<noteq> 0"
    by (simp_all add: spec_fee_eq)
  note c = swapAtoB_whole[OF assms rng new]
  show "if 0 < spec_swap_out a b f x
        then \<exists>rc p'. swapAtoB p (whole x) = (Inr rc, p')
               \<and> fee rc = whole (spec_fee f x)
               \<and> amountOut rc = whole (spec_swap_out a b f x)
               \<and> reserveA p' = whole (a + (x - spec_fee f x))
               \<and> reserveB p' = whole (b - spec_swap_out a b f x)
        else swapAtoB p (whole x) = (Inl ZeroOutput, p)"
  proof (cases "0 < spec_swap_out a b f x")
    case True
    then have "0 < b - a * b div (a + (x - x * f div 10000))" by (simp add: spec_swap_out_eq)
    from c(2)[OF this] True show ?thesis
      by (auto simp: spec_swap_out_eq spec_fee_eq)
  next
    case False
    then have "b - a * b div (a + (x - x * f div 10000)) \<le> 0" by (simp add: spec_swap_out_eq)
    from c(1)[OF this] False show ?thesis by simp
  qed
next
  assume h: "swap_in_range b a f x \<and> b + (x - spec_fee f x) \<noteq> 0"
  then have rng: "swap_in_range b a f x" and new: "b + (x - x * f div 10000) \<noteq> 0"
    by (simp_all add: spec_fee_eq)
  note c = swapBtoA_whole[OF assms rng new]
  show "if 0 < spec_swap_out b a f x
        then \<exists>rc p'. swapBtoA p (whole x) = (Inr rc, p')
               \<and> fee rc = whole (spec_fee f x)
               \<and> amountOut rc = whole (spec_swap_out b a f x)
               \<and> reserveB p' = whole (b + (x - spec_fee f x))
               \<and> reserveA p' = whole (a - spec_swap_out b a f x)
        else swapBtoA p (whole x) = (Inl ZeroOutput, p)"
  proof (cases "0 < spec_swap_out b a f x")
    case True
    then have "0 < a - b * a div (b + (x - x * f div 10000))" by (simp add: spec_swap_out_eq)
    from c(2)[OF this] True show ?thesis
      by (auto simp: spec_swap_out_eq spec_fee_eq)
  next
    case False
    then have "a - b * a div (b + (x - x * f div 10000)) \<le> 0" by (simp add: spec_swap_out_eq)
    from c(1)[OF this] False show ?thesis by simp
  qed
qed

lemma crwn_usdt_fields:
  "reserveA crwn_usdt = whole 10000000" "reserveB crwn_usdt = whole 1250000"
  "feeBps crwn_usdt = whole 30" "k crwn_usdt = fmul (reserveA crwn_usdt) (reserveB crwn_usdt)"
  using fmul_whole[of 10000000 1250000] by (simp_all add: crwn_usdt_def safe_def)

lemma crwn_btc_fields:
  "reserveA crwn_btc = whole 5000000" "reserveB crwn_btc = whole 50"
  "feeBps crwn_btc = whole 30" "k crwn_btc = fmul (reserveA crwn_btc) (reserveB crwn_btc)"
  using fmul_whole[of 5000000 50] by (simp_all add: crwn_btc_def safe_def)

theorem swap_follows_spec_witness:
  "reserveA crwn_usdt = whole 10000000 \<and> reserveB crwn_usdt = whole 1250000
   \<and> feeBps crwn_usdt = whole 30
   \<and> k crwn_usdt = fmul (reserveA crwn_usdt) (reserveB crwn_usdt)
   \<and> swap_in_range 10000000 1250000 30 10000
   \<and> spec_swap_out 10000000 1250000 30 10000 = 1246
   \<and> (\<exists>rc p'. swapAtoB crwn_usdt (whole 10000) = (Inr rc, p') \<and> fee rc = whole 30
          \<and> amountOut rc = whole 1246
          \<and> reserveA p' = whole 10009970 \<and> reserveB p' = whole 1248754)
   \<and> swap_in_range 1250000 10000000 30 0
   \<and> swapBtoA crwn_usdt (whole 0) = (Inl ZeroOutput, crwn_usdt)"
proof -
  have nz: "(10000000::int) \<noteq> 0" "(1250000::int) \<noteq> 0" by simp_all
  have r: "swap_in_range 10000000 1250000 30 10000" "swap_in_range 1250000 10000000 30 0"
    by (simp_all add: swap_in_range_def safe_def)
  have v: "spec_swap_out 10000000 1250000 30 10000 = 1246" "spec_fee 30 10000 = 30"
    "spec_swap_out 1250000 10000000 30 0 = 0" "spec_fee 30 0 = 0"
    by (simp_all add: spec_swap_out_eq spec_fee_eq)
  from swap_follows_spec[OF crwn_usdt_fields nz, of 10000]
    swap_follows_spec[OF crwn_usdt_fields nz, of 0] r v crwn_usdt_fields
  show ?thesis by simp
qed

text \<open>
  Claim C1, as stated: after a successful swap with \<open>amountIn > 0\<close> the product of the
  reserves is at least its value before, and greater when \<open>feeBps > 0\<close>. It fails on the
  bootstrapped CRWN-USDT pool (fee 30 basis points) for a swap of 10,000 CRWN, the
  specification's own scenario: the fee of 30 is counted in \<^verbatim>\<open>feesCollected\<close> and does
  not enter the reserve, the new reserve of USDT is rounded down, and the product falls from
  12,500,000,000,000 to 12,499,990,077,380.
\<close>

theorem swap_product_grows_counterexample:
  "flt (Fin 0) (feeBps crwn_usdt) \<and>
   (\<exists>rc p'. swapAtoB crwn_usdt (Fin 10000) = (Inr rc, p')
      \<and> amountIn rc = Fin 10000 \<and> amountOut rc = Fin 1246 \<and> fee rc = Fin 30
      \<and> reserveA p' = Fin 10009970 \<and> reserveB p' = Fin 1248754
      \<and> fmul (reserveA p') (reserveB p') = Fin 12499990077380
      \<and> fmul (reserveA crwn_usdt) (reserveB crwn_usdt) = Fin 12500000000000)"
proof -
  have nz: "(10000000::int) \<noteq> 0" "(1250000::int) \<noteq> 0" by simp_all
  have r: "swap_in_range 10000000 1250000 30 10000"
    by (simp add: swap_in_range_def safe_def)
  have "\<exists>rc p'. swapAtoB crwn_usdt (whole 10000) = (Inr rc, p')
      \<and> amountIn rc = whole 10000 \<and> fee rc = whole 30 \<and> amountOut rc = whole 1246
      \<and> reserveA p' = whole 10009970 \<and> reserveB p' = whole 1248754
      \<and> k p' = whole 12499990077380 \<and> feeBps p' = whole 30"
    using swapAtoB_whole(2)[OF crwn_usdt_fields nz r] by simp
  moreover have "fmul (whole 10009970) (whole 1248754) = whole 12499990077380"
    "fmul (whole 10000000) (whole 1250000) = whole 12500000000000"
    using fmul_whole[of 10009970 1248754] fmul_whole[of 10000000 1250000]
    by (simp_all add: safe_def)
  ultimately show ?thesis
    by (auto simp: crwn_usdt_def simp del: fmul.simps)
qed

text \<open>
  Claim C1, amended. For a pool whose reserves are positive integers, with \<open>k\<close> their
  product and \<open>0 \<le> feeBps \<le> 10000\<close>, and a swap of an integer amount \<open>amountIn > 0\<close> in
  which every number computed is a safe integer (of magnitude below \<open>2^53\<close>): after the
  swap, if it succeeds, the product of the reserves, which is the new \<open>k\<close>, is its value
  before minus the remainder of that value modulo the new reserve of the token paid in; so
  it is at most its value before, whatever the fee.
\<close>

theorem swap_product_never_grows:
  fixes a b f x :: int
  assumes fields: "reserveA p = whole a" "reserveB p = whole b" "feeBps p = whole f"
    and inv: "k p = fmul (reserveA p) (reserveB p)"
    and pos: "0 < a" "0 < b"
    and amt: "0 < x" and f: "0 \<le> f" "f \<le> 10000"
  shows "(swap_in_range a b f x \<and> swapAtoB p (whole x) = (Inr rc, p') \<longrightarrow>
            (\<exists>a' b'. reserveA p' = whole a' \<and> reserveB p' = whole b' \<and> k p' = whole (a' * b')
               \<and> a' * b' = a * b - (a * b) mod a' \<and> a' * b' \<le> a * b))
       \<and> (swap_in_range b a f x \<and> swapBtoA p (whole x) = (Inr rc, p') \<longrightarrow>
            (\<exists>a' b'. reserveA p' = whole a' \<and> reserveB p' = whole b' \<and> k p' = whole (a' * b')
               \<and> a' * b' = a * b - (a * b) mod b' \<and> a' * b' \<le> a * b))"
proof (intro conjI impI)
  have fb: "0 \<le> x - x * f div 10000"
    using fee_bounds(2)[of x f] amt f by simp
  have nz: "a \<noteq> 0" "b \<noteq> 0" using pos by simp_all
  {
    assume h: "swap_in_range a b f x \<and> swapAtoB p (whole x) = (Inr rc, p')"
    define a' where "a' = a + (x - x * f div 10000)"
    define b' where "b' = a * b div a'"
    have a1: "0 < a'" using fb pos by (simp add: a'_def)
    then have new: "a + (x - x * f div 10000) \<noteq> 0" by (simp add: a'_def)
    note c = swapAtoB_whole[OF fields inv nz conjunct1[OF h] new, folded a'_def, folded b'_def]
    have "0 < b - b'" using c(1) h by (cases "0 < b - b'") simp_all
    from c(2)[OF this] h have "reserveA p' = whole a'" "reserveB p' = whole b'"
      "k p' = whole (a' * b')" by auto
    moreover have "a' * b' = a * b - (a * b) mod a'" "a' * b' \<le> a * b"
      unfolding b'_def using mult_div_le[OF a1, of "a * b"] by simp_all
    ultimately show "\<exists>a' b'. reserveA p' = whole a' \<and> reserveB p' = whole b'
        \<and> k p' = whole (a' * b') \<and> a' * b' = a * b - (a * b) mod a' \<and> a' * b' \<le> a * b"
      by blast
  }
  {
    assume h: "swap_in_range b a f x \<and> swapBtoA p (whole x) = (Inr rc, p')"
    define b' where "b' = b + (x - x * f div 10000)"
    define a' where "a' = b * a div b'"
    have b1: "0 < b'" using fb pos by (simp add: b'_def)
    then have new: "b + (x - x * f div 10000) \<noteq> 0" by (simp add: b'_def)
    note c = swapBtoA_whole[OF fields inv nz conjunct1[OF h] new, folded b'_def, folded a'_def]
    have "0 < a - a'" using c(1) h by (cases "0 < a - a'") simp_all
    from c(2)[OF this] h have "reserveA p' = whole a'" "reserveB p' = whole b'"
      "k p' = whole (a' * b')" by (auto simp: mult.commute)
    moreover have "a' * b' = a * b - (a * b) mod b'" "a' * b' \<le> a * b"
      unfolding a'_def using mult_div_le[OF b1, of "b * a"] by (simp_all add: mult.commute)
    ultimately show "\<exists>a' b'. reserveA p' = whole a' \<and> reserveB p' = whole b'
        \<and> k p' = whole (a' * b') \<and> a' * b' = a * b - (a * b) mod b' \<and> a' * b' \<le> a * b"
      by blast
  }
qed

theorem swap_product_never_grows_witness:
  "reserveA crwn_usdt = whole 10000000 \<and> reserveB crwn_usdt = whole 1250000
   \<and> feeBps crwn_usdt = whole 30
   \<and> k crwn_usdt = fmul (reserveA crwn_usdt) (reserveB crwn_usdt)
   \<and> swap_in_range 10000000 1250000 30 10000
   \<and> (\<exists>rc p'. swapAtoB crwn_usdt (whole 10000) = (Inr rc, p')
        \<and> (\<exists>a' b'. reserveA p' = whole a' \<and> reserveB p' = whole b' \<and> k p' = whole (a' * b')
               \<and> a' * b' \<le> 10000000 * 1250000))"
proof -
  have h: "(0::int) < 10000000" "(0::int) < 1250000" "(0::int) < 10000" "(0::int) \<le> 30"
    "(30::int) \<le> 10000" by simp_all
  have nz: "(10000000::int) \<noteq> 0" "(1250000::int) \<noteq> 0" by simp_all
  have r: "swap_in_range 10000000 1250000 30 10000"
    by (simp add: swap_in_range_def safe_def)
  from swapAtoB_whole(2)[OF crwn_usdt_fields nz r] obtain rc p' where
    e: "swapAtoB crwn_usdt (whole 10000) = (Inr rc, p')" by auto
  from swap_product_never_grows[OF crwn_usdt_fields h, THEN conjunct1, THEN mp, OF conjI[OF r e]]
  have "\<exists>a' b'. reserveA p' = whole a' \<and> reserveB p' = whole b' \<and> k p' = whole (a' * b')
               \<and> a' * b' \<le> 10000000 * 1250000" by blast
  with e r crwn_usdt_fields show ?thesis by blast
qed

text \<open>
  Without the bound the product can grow: in a pool with reserves of 100,000,000 and
  1,750,000,000 the product 175,000,000,000,000,000 is above \<open>2^53\<close>, the quotient
  \<open>k / newA\<close> of a swap of 2,554,957 is rounded up to the integer 1,706,487,171, and the
  product of the new reserves is 175,000,000,000,000,008.
\<close>

lemma swap_product_grows_above_safe_range:
  "\<exists>rc p'. swapAtoB big_pool (Fin 2554957) = (Inr rc, p')
     \<and> reserveA p' = Fin 102549848 \<and> reserveB p' = Fin 1706487171
     \<and> (102549848::int) * 1706487171 = 100000000 * 1750000000 + 8"
  using big_pool_swap by auto

lemma round_trip_int:
  fixes a b f x :: int
  assumes pos: "0 < a" "0 < b" and amt: "0 < x" and f: "0 \<le> f" "f \<le> 10000"
  defines "a1 \<equiv> a + (x - x * f div 10000)"
  defines "b1 \<equiv> a * b div a1"
  defines "y \<equiv> b - b1"
  defines "b2 \<equiv> b1 + (y - y * f div 10000)"
  assumes y: "0 < y" and b1: "b1 \<noteq> 0"
  shows "0 < b2"
    and "a1 - b1 * a1 div b2 \<le> x - x * f div 10000 - (- ((a * b) mod a1)) div b"
proof -
  define K where "K = a * b"
  define r where "r = K mod a1"
  have fee1: "0 \<le> x * f div 10000" "x * f div 10000 \<le> x"
    using fee_bounds[of x f] amt f by simp_all
  have a1: "0 < a1" using fee1 pos by (simp add: a1_def)
  have K0: "0 \<le> K" using pos by (simp add: K_def)
  have b1nn: "0 \<le> b1" unfolding b1_def using K0 a1 by (simp add: pos_imp_zdiv_nonneg_iff K_def)
  have b1pos: "0 < b1" using b1nn b1 by simp
  have fee2: "0 \<le> y * f div 10000" "y * f div 10000 \<le> y"
    using fee_bounds[of y f] y f by simp_all
  show b2pos: "0 < b2" using b1pos fee2 by (simp add: b2_def)
  have b2le: "b2 \<le> b" using fee2 by (simp add: b2_def y_def)
  have k1: "b1 * a1 = K - r"
    using mult_div_le(1)[OF a1, of K] by (simp add: b1_def r_def K_def mult.commute)
  have kr: "0 \<le> K - r" using k1 b1nn a1 by (metis mult_nonneg_nonneg less_imp_le)
  have "(K - r) div b \<le> (K - r) div b2"
    using kr b2pos b2le by (rule zdiv_mono2)
  moreover have "(K - r) div b = a + (- r) div b"
  proof -
    have "K - r = - r + a * b" by (simp add: K_def)
    then have "(K - r) div b = (- r + a * b) div b" by (rule arg_cong)
    also have "\<dots> = a + (- r) div b"
      using pos(2) div_mult_self1[of b "- r" a] by (simp add: mult.commute)
    finally show ?thesis .
  qed
  ultimately have "a + (- r) div b \<le> b1 * a1 div b2" by (simp add: k1)
  then show "a1 - b1 * a1 div b2 \<le> x - x * f div 10000 - (- ((a * b) mod a1)) div b"
    by (simp add: a1_def r_def K_def)
qed

lemma whole_eq_iff: "whole m = whole n \<longleftrightarrow> m = n"
  by simp

text \<open>
  Claim C8, as stated: a successful \<^verbatim>\<open>swapAtoB(x)\<close> followed by \<^verbatim>\<open>swapBtoA(out)\<close>
  returns at most \<open>x\<close>. It fails on the bootstrapped CRWN-BTC pool: 1 CRWN buys 1 BTC
  (the new BTC reserve \<open>floor(250000000 / 5000001) = 49\<close> is rounded down), and that 1 BTC
  buys back 100,001 CRWN.
\<close>

theorem swap_round_trip_counterexample:
  "\<exists>rc1 p1 rc2 p2.
     swapAtoB crwn_btc (Fin 1) = (Inr rc1, p1) \<and> amountOut rc1 = Fin 1
     \<and> swapBtoA p1 (amountOut rc1) = (Inr rc2, p2) \<and> amountOut rc2 = Fin 100001"
proof -
  have nz: "(5000000::int) \<noteq> 0" "(50::int) \<noteq> 0" by simp_all
  have r: "swap_in_range 5000000 50 30 1" by (simp add: swap_in_range_def safe_def)
  from swapAtoB_whole(2)[OF crwn_btc_fields nz r] obtain rc1 p1 where
    s1: "swapAtoB crwn_btc (whole 1) = (Inr rc1, p1)" "amountOut rc1 = whole 1"
      "reserveA p1 = whole 5000001" "reserveB p1 = whole 49" "k p1 = whole 245000049"
      "feeBps p1 = whole 30"
    by auto
  have inv1: "k p1 = fmul (reserveA p1) (reserveB p1)"
    using fmul_whole[of 5000001 49] by (simp add: s1 safe_def)
  have nz1: "(5000001::int) \<noteq> 0" "(49::int) \<noteq> 0" by simp_all
  have r2: "swap_in_range 49 5000001 30 1" by (simp add: swap_in_range_def safe_def)
  from swapBtoA_whole(2)[OF s1(3,4,6) inv1 nz1 r2] obtain rc2 p2 where
    "swapBtoA p1 (whole 1) = (Inr rc2, p2)" "amountOut rc2 = whole 100001"
    by auto
  with s1(1,2) show ?thesis by auto
qed

text \<open>
  Claim C8, amended. For a pool whose reserves are positive integers, with \<open>k\<close> their
  product, \<open>0 \<le> feeBps \<le> 10000\<close> and an integer \<open>x > 0\<close>, when every number the two swaps
  compute is a safe integer (of magnitude below \<open>2^53\<close>): a successful \<^verbatim>\<open>swapAtoB(x)\<close>
  followed by a successful \<^verbatim>\<open>swapBtoA(out)\<close> returns at most
  \<open>x - fee + ceil(r / reserveB)\<close>, where \<open>fee\<close> is the fee of the first swap, \<open>r\<close> is the
  remainder of \<open>k\<close> modulo the reserve of A after the first swap, and \<open>k\<close> and \<open>reserveB\<close>
  are taken before it. In particular it returns at most \<open>x - fee\<close>, hence at most \<open>x\<close>,
  when that remainder is \<open>0\<close>.
\<close>

theorem swap_round_trip_bound:
  fixes a b f x a1 b1 y :: int
  assumes fields: "reserveA p = whole a" "reserveB p = whole b" "feeBps p = whole f"
    and inv: "k p = fmul (reserveA p) (reserveB p)"
    and pos: "0 < a" "0 < b"
    and amt: "0 < x" and f: "0 \<le> f" "f \<le> 10000"
    and r1: "swap_in_range a b f x"
    and s1: "swapAtoB p (whole x) = (Inr rc1, p1)"
    and mid: "reserveA p1 = whole a1" "reserveB p1 = whole b1" "amountOut rc1 = whole y"
    and r2: "swap_in_range b1 a1 f y"
    and s2: "swapBtoA p1 (amountOut rc1) = (Inr rc2, p2)"
  shows "\<exists>z. amountOut rc2 = whole z
           \<and> fee rc1 = whole (x * f div 10000)
           \<and> z \<le> x - x * f div 10000 - (- ((a * b) mod a1)) div b
           \<and> ((a * b) mod a1 = 0 \<longrightarrow> z \<le> x - x * f div 10000 \<and> z \<le> x)"
proof -
  have fee1: "0 \<le> x * f div 10000" "x * f div 10000 \<le> x"
    using fee_bounds[of x f] amt f by simp_all
  define a' where "a' = a + (x - x * f div 10000)"
  define b' where "b' = a * b div a'"
  have a'pos: "0 < a'" using fee1 pos by (simp add: a'_def)
  then have new: "a + (x - x * f div 10000) \<noteq> 0" by (simp add: a'_def)
  have nz: "a \<noteq> 0" "b \<noteq> 0" using pos by simp_all
  note c = swapAtoB_whole[OF fields inv nz r1 new, folded a'_def, folded b'_def]
  have "0 < b - b'" using c(1) s1 by (cases "0 < b - b'") simp_all
  from c(2)[OF this] s1 have p1: "fee rc1 = whole (x * f div 10000)"
    "amountOut rc1 = whole (b - b')" "reserveA p1 = whole a'" "reserveB p1 = whole b'"
    "k p1 = whole (a' * b')" "feeBps p1 = whole f"
    by auto
  have e: "a1 = a'" "b1 = b'" "y = b - b'" using p1(2,3,4) mid by simp_all
  have ypos: "0 < y" using \<open>0 < b - b'\<close> e by simp
  have inv1: "k p1 = fmul (reserveA p1) (reserveB p1)"
    unfolding p1(3,4,5) using swap_in_rangeD(8)[OF r2] e
    by (simp add: fmul_whole mult.commute del: fmul.simps)
  have b1nz: "b1 \<noteq> 0" using swap_Inr_reserves(2)[OF s2] mid(2) by (simp add: feq_def)
  have a1nz: "a1 \<noteq> 0" using a'pos e by simp
  note rt = round_trip_int[OF pos amt f, folded a'_def, folded b'_def, folded e, OF ypos b1nz]
  define b2 where "b2 = b1 + (y - y * f div 10000)"
  have new2: "b1 + (y - y * f div 10000) \<noteq> 0" using rt(1) by simp
  note c2 = swapBtoA_whole[OF mid(1,2) p1(6) inv1 a1nz b1nz r2 new2]
  have s2': "swapBtoA p1 (whole y) = (Inr rc2, p2)" using s2 mid(3) by simp
  have "0 < a1 - b1 * a1 div (b1 + (y - y * f div 10000))"
    using c2(1) s2' by (cases "0 < a1 - b1 * a1 div (b1 + (y - y * f div 10000))") simp_all
  from c2(2)[OF this] s2' have out: "amountOut rc2 = whole (a1 - b1 * a1 div (b1 + (y - y * f div 10000)))"
    by auto
  have main: "a1 - b1 * a1 div (b1 + (y - y * f div 10000))
      \<le> x - x * f div 10000 - (- ((a * b) mod a1)) div b"
    using rt(2) by simp
  define z where "z = a1 - b1 * a1 div (b1 + (y - y * f div 10000))"
  have "amountOut rc2 = whole z" using out by (simp only: z_def)
  moreover have "z \<le> x - x * f div 10000 - (- ((a * b) mod a1)) div b"
    using main by (simp only: z_def)
  moreover have "(a * b) mod a1 = 0 \<longrightarrow> z \<le> x - x * f div 10000 \<and> z \<le> x"
    using main fee1(1) by (auto simp: z_def)
  ultimately show ?thesis using p1(1) by blast
qed

theorem swap_round_trip_bound_witness:
  "reserveA crwn_btc = whole 5000000 \<and> reserveB crwn_btc = whole 50 \<and> feeBps crwn_btc = whole 30
   \<and> k crwn_btc = fmul (reserveA crwn_btc) (reserveB crwn_btc)
   \<and> swap_in_range 5000000 50 30 1 \<and> swap_in_range 49 5000001 30 1
   \<and> (5000000 * 50) mod 5000001 = (4999951 :: int)
   \<and> (\<exists>rc1 p1 rc2 p2 z.
         swapAtoB crwn_btc (whole 1) = (Inr rc1, p1)
       \<and> swapBtoA p1 (amountOut rc1) = (Inr rc2, p2)
       \<and> amountOut rc2 = whole z \<and> z \<le> 1 - 0 - (- 4999951) div 50)"
proof -
  have h: "(0::int) < 5000000" "(0::int) < 50" "(0::int) < 1" "(0::int) \<le> 30" "(30::int) \<le> 10000"
    by simp_all
  have nz: "(5000000::int) \<noteq> 0" "(50::int) \<noteq> 0" by simp_all
  have r: "swap_in_range 5000000 50 30 1" by (simp add: swap_in_range_def safe_def)
  from swapAtoB_whole(2)[OF crwn_btc_fields nz r] obtain rc1 p1 where
    s1: "swapAtoB crwn_btc (whole 1) = (Inr rc1, p1)" "amountOut rc1 = whole 1"
      "reserveA p1 = whole 5000001" "reserveB p1 = whole 49" "k p1 = whole 245000049"
      "feeBps p1 = whole 30"
    by auto
  have inv1: "k p1 = fmul (reserveA p1) (reserveB p1)"
    using fmul_whole[of 5000001 49] by (simp add: s1 safe_def)
  have nz1: "(5000001::int) \<noteq> 0" "(49::int) \<noteq> 0" by simp_all
  have r2: "swap_in_range 49 5000001 30 1" by (simp add: swap_in_range_def safe_def)
  from swapBtoA_whole(2)[OF s1(3,4,6) inv1 nz1 r2] obtain rc2 p2 where
    s2: "swapBtoA p1 (whole 1) = (Inr rc2, p2)"
    by auto
  then have s2': "swapBtoA p1 (amountOut rc1) = (Inr rc2, p2)" using s1(2) by simp
  from swap_round_trip_bound[OF crwn_btc_fields h r s1(1) s1(3,4,2) r2 s2']
  obtain z where "amountOut rc2 = whole z" "z \<le> 1 - 1 * 30 div 10000 - (- ((5000000 * 50) mod 5000001)) div 50"
    by blast
  then have "amountOut rc2 = whole z \<and> z \<le> 1 - 0 - (- 4999951) div 50" by simp
  with s1(1) s2' r r2 crwn_btc_fields show ?thesis by (simp del: fmul.simps)
qed

section \<open>Adding and removing liquidity\<close>

lemma le_div_iff_mult:
  fixes n m S :: int
  assumes "0 < S" and "n * S \<le> m"
  shows "n \<le> m div S"
proof -
  have "n * S div S \<le> m div S" using assms(2) by (rule zdiv_mono1) (use assms(1) in simp)
  then show ?thesis using assms(1) by simp
qed

lemma share_payout_le:
  fixes s S a r :: int
  assumes "0 < r" "0 < S" "0 \<le> s" "s \<le> a * S div r"
  shows "s * (r + a) div (S + s) \<le> a"
proof -
  have "(a * S div r) * r = a * S - a * S mod r" by (simp add: minus_mod_eq_div_mult)
  moreover have "0 \<le> a * S mod r" using assms(1) by simp
  ultimately have le: "(a * S div r) * r \<le> a * S" by linarith
  have "s * r \<le> (a * S div r) * r" using assms by (simp add: mult_right_mono)
  also note le
  finally have "s * (r + a) \<le> a * (S + s)" by (simp add: algebra_simps)
  then have "s * (r + a) div (S + s) \<le> a * (S + s) div (S + s)"
    by (rule zdiv_mono1) (use assms in simp)
  then show ?thesis using assms by simp
qed

lemma share_payout_ge:
  fixes s S a r :: int
  assumes "0 < r" "0 < S" "0 \<le> s" "s \<le> a * S div r"
  shows "s * r div S \<le> s * (r + a) div (S + s)"
proof -
  define t where "t = s * r div S"
  have "(a * S div r) * r = a * S - a * S mod r" by (simp add: minus_mod_eq_div_mult)
  moreover have "0 \<le> a * S mod r" using assms(1) by simp
  ultimately have le: "(a * S div r) * r \<le> a * S" by linarith
  have "s * r \<le> (a * S div r) * r" using assms by (simp add: mult_right_mono)
  also note le
  finally have sr: "s * r \<le> a * S" .
  then have "s * r div S \<le> a * S div S" by (rule zdiv_mono1) (use assms(2) in simp)
  then have ta: "t \<le> a" using assms(2) by (simp add: t_def)
  have tS: "t * S \<le> s * r"
    using mult_div_le(2)[OF assms(2), of "s * r"] by (simp add: t_def mult.commute)
  have "t * s \<le> a * s" using ta assms(3) by (rule mult_right_mono)
  with tS have "t * (S + s) \<le> s * (r + a)" by (simp add: algebra_simps)
  moreover have "0 < S + s" using assms by simp
  ultimately have "t \<le> s * (r + a) div (S + s)" by (intro le_div_iff_mult)
  then show ?thesis by (simp add: t_def)
qed

lemma limiting_side_payout:
  fixes S a r :: int
  assumes "0 < r" "0 < S"
  shows "a - 1 - (r - 2) div S \<le> (a * S div r) * r div S"
proof -
  define s where "s = a * S div r"
  define t where "t = s * r div S"
  have "r * s = a * S - a * S mod r" using mult_div_le(1)[OF assms(1), of "a * S"] by (simp add: s_def)
  moreover have "a * S mod r \<le> r - 1" using assms(1) by (simp add: zle_diff1_eq)
  ultimately have sr: "a * S - (r - 1) \<le> s * r" by (simp add: mult.commute)
  have "S * t = s * r - s * r mod S" using mult_div_le(1)[OF assms(2), of "s * r"] by (simp add: t_def)
  moreover have "s * r mod S \<le> S - 1" using assms(2) by (simp add: zle_diff1_eq)
  ultimately have tS: "s * r - (S - 1) \<le> t * S" by (simp add: mult.commute)
  have "(a - 1 - t) * S = a * S - S - t * S" by (simp add: algebra_simps)
  also have "\<dots> \<le> r - 2" using sr tS by linarith
  finally have "a - 1 - t \<le> (r - 2) div S" using assms(2) by (intro le_div_iff_mult)
  then show ?thesis by (simp add: t_def s_def)
qed

lemma liquidity_in_rangeD:
  assumes "liquidity_in_range rA rB S h A B"
  defines "s \<equiv> (if S = 0 then isqrt (A * B) else min (A * S div rA) (B * S div rB))"
  shows "S = 0 \<Longrightarrow> A * B < 2 ^ 52" "S \<noteq> 0 \<Longrightarrow> safe (A * S)" "S \<noteq> 0 \<Longrightarrow> safe (B * S)"
    "safe rA" "safe rB" "safe S" "safe h" "safe A" "safe B" "safe (rA + A)" "safe (rB + B)"
    "safe (S + s)" "safe (h + s)" "safe (s * (rA + A))" "safe (s * (rB + B))"
  using assms by (simp_all add: liquidity_in_range_def Let_def split: if_splits)

text \<open>
  A deposit whose numbers are safe integers mints the shares of integer arithmetic, and
  the withdrawal of shares pays out the floors of integer arithmetic.
\<close>

lemma addLiquidity_whole:
  fixes rA rB S h A B :: int
  assumes fields: "reserveA p = whole rA" "reserveB p = whole rB" "totalLpShares p = whole S"
      "held p provider = whole h"
    and a: "0 \<le> A * B" and live: "S = 0 \<or> (rA \<noteq> 0 \<and> rB \<noteq> 0)"
    and rng: "liquidity_in_range rA rB S h A B"
  defines "s \<equiv> (if S = 0 then isqrt (A * B) else min (A * S div rA) (B * S div rB))"
  shows "lp_shares (fst (addLiquidity p provider (whole A) (whole B))) = whole s"
    and "reserveA (snd (addLiquidity p provider (whole A) (whole B))) = whole (rA + A)"
    and "reserveB (snd (addLiquidity p provider (whole A) (whole B))) = whole (rB + B)"
    and "totalLpShares (snd (addLiquidity p provider (whole A) (whole B))) = whole (S + s)"
    and "lpHolders (snd (addLiquidity p provider (whole A) (whole B))) provider = Some (whole (h + s))"
proof -
  note r = liquidity_in_rangeD[OF rng, folded s_def]
  have sh: "(if feq (whole S) (Fin 0) then ffloor (fsqrt (fmul (whole A) (whole B)))
             else fmin (ffloor (fdiv (fmul (whole A) (whole S)) (whole rA)))
                       (ffloor (fdiv (fmul (whole B) (whole S)) (whole rB)))) = whole s"
  proof (cases "S = 0")
    case True
    have "A * B < 2 ^ 53" using r(1)[OF True] by simp
    moreover have "- (2 ^ 53) < A * B" using a by simp
    ultimately have "safe (A * B)" by (simp add: safe_def)
    then have "fmul (whole A) (whole B) = whole (A * B)" by (rule fmul_whole)
    then show ?thesis
      using True floor_sqrt_whole[OF a r(1)[OF True]]
      by (simp add: s_def feq_def del: fmul.simps fsqrt.simps ffloor.simps)
  next
    case False
    have m: "fmul (whole A) (whole S) = whole (A * S)" "fmul (whole B) (whole S) = whole (B * S)"
      using r(2,3)[OF False] by (simp_all only: fmul_whole)
    have nz: "rA \<noteq> 0" "rB \<noteq> 0" using live False by simp_all
    have d: "ffloor (fdiv (whole (A * S)) (whole rA)) = whole (A * S div rA)"
      "ffloor (fdiv (whole (B * S)) (whole rB)) = whole (B * S div rB)"
      using ffloor_fdiv_whole[OF r(2)[OF False] r(4) nz(1)]
        ffloor_fdiv_whole[OF r(3)[OF False] r(5) nz(2)] by blast+
    show ?thesis
      unfolding m d fmin_whole using False by (simp add: s_def feq_def)
  qed
  have ad: "fadd (whole rA) (whole A) = whole (rA + A)" "fadd (whole rB) (whole B) = whole (rB + B)"
    "fadd (whole S) (whole s) = whole (S + s)" "fadd (whole h) (whole s) = whole (h + s)"
    using r(10,11,12,13) by (simp_all only: fadd_whole)
  show "lp_shares (fst (addLiquidity p provider (whole A) (whole B))) = whole s"
    unfolding addLiquidity_def Let_def fields sh by simp
  show "reserveA (snd (addLiquidity p provider (whole A) (whole B))) = whole (rA + A)"
    unfolding addLiquidity_def Let_def fields sh ad by simp
  show "reserveB (snd (addLiquidity p provider (whole A) (whole B))) = whole (rB + B)"
    unfolding addLiquidity_def Let_def fields sh ad by simp
  show "totalLpShares (snd (addLiquidity p provider (whole A) (whole B))) = whole (S + s)"
    unfolding addLiquidity_def Let_def fields sh ad by simp
  show "lpHolders (snd (addLiquidity p provider (whole A) (whole B))) provider = Some (whole (h + s))"
    unfolding addLiquidity_def Let_def fields sh ad by simp
qed

lemma removeLiquidity_whole:
  fixes rA rB S h s :: int
  assumes fields: "reserveA p = whole rA" "reserveB p = whole rB" "totalLpShares p = whole S"
      "lpHolders p provider = Some (whole h)"
    and s: "s \<le> h" and S: "S \<noteq> 0" "safe S"
    and rng: "safe (s * rA)" "safe (s * rB)"
  shows "\<exists>rc p'. removeLiquidity p provider (whole s) = (Inr rc, p')
           \<and> lp_amountA rc = whole (s * rA div S) \<and> lp_amountB rc = whole (s * rB div S)
           \<and> lp_shares rc = whole s"
proof -
  have hd: "held p provider = whole h"
    by (simp add: held_def fields for_else_def)
  have m: "fmul (whole s) (whole rA) = whole (s * rA)" "fmul (whole s) (whole rB) = whole (s * rB)"
    using rng by (simp_all only: fmul_whole)
  have d: "ffloor (fdiv (whole (s * rA)) (whole S)) = whole (s * rA div S)"
    "ffloor (fdiv (whole (s * rB)) (whole S)) = whole (s * rB div S)"
    using ffloor_fdiv_whole[OF rng(1) S(2,1)] ffloor_fdiv_whole[OF rng(2) S(2,1)] by blast+
  show ?thesis
    unfolding removeLiquidity_def Let_def hd fields(1,2,3) m d
    using s by simp
qed

lemma isqrt_pos:
  assumes "1 \<le> n"
  shows "1 \<le> isqrt n"
proof -
  have n: "0 \<le> n" using assms by simp
  note b = isqrt_bounds[OF n]
  show ?thesis
  proof (rule ccontr)
    assume "\<not> 1 \<le> isqrt n"
    then have "isqrt n = 0" using b(1) by simp
    with b(3) assms show False by simp
  qed
qed

lemma new_pool_fields:
  "reserveA (new_pool ta tb f) = whole 0" "reserveB (new_pool ta tb f) = whole 0"
  "totalLpShares (new_pool ta tb f) = whole 0" "held (new_pool ta tb f) u = whole 0"
  by (simp_all add: new_pool_def held_def)

lemma crwn_usdt_shares:
  "totalLpShares crwn_usdt = whole 3535533" "held crwn_usdt ''alice'' = whole 0"
  by (simp_all add: crwn_usdt_def held_def)

text \<open>The example pools are the states the bootstrap produces.\<close>

lemma crwn_usdt_bootstrap:
  "addLiquidity (new_pool ''CRWN'' ''USDT'' (Fin 30)) ''__system__'' (Fin 10000000) (Fin 1250000) =
     (\<lparr>lp_provider = ''__system__'', lp_amountA = Fin 10000000, lp_amountB = Fin 1250000,
       lp_shares = Fin 3535533, lp_action = ''add''\<rparr>, crwn_usdt)"
proof -
  have "isqrt 12500000000000 = 3535533" by code_simp
  then have sq: "ffloor (fsqrt (Fin 12500000000000)) = Fin 3535533"
    using floor_sqrt_whole[of 12500000000000] by simp
  have m: "fmul (Fin 10000000) (Fin 1250000) = Fin 12500000000000"
    using fmul_whole[of 10000000 1250000] by (simp add: safe_def)
  have ad: "fadd (Fin 0) (Fin 10000000) = Fin 10000000" "fadd (Fin 0) (Fin 1250000) = Fin 1250000"
    "fadd (Fin 0) (Fin 3535533) = Fin 3535533"
    using fadd_whole[of 0 10000000] fadd_whole[of 0 1250000] fadd_whole[of 0 3535533]
    by (simp_all add: safe_def)
  show ?thesis
    unfolding addLiquidity_def Let_def new_pool_def held_def crwn_usdt_def recordPrice_def priceAinB_def
    by (simp add: m sq ad feq_def del: fmul.simps fadd.simps fdiv.simps ffloor.simps fsqrt.simps)
qed

lemma crwn_btc_bootstrap:
  "addLiquidity (new_pool ''CRWN'' ''BTC'' (Fin 30)) ''__system__'' (Fin 5000000) (Fin 50) =
     (\<lparr>lp_provider = ''__system__'', lp_amountA = Fin 5000000, lp_amountB = Fin 50,
       lp_shares = Fin 15811, lp_action = ''add''\<rparr>, crwn_btc)"
proof -
  have "isqrt 250000000 = 15811" by code_simp
  then have sq: "ffloor (fsqrt (Fin 250000000)) = Fin 15811"
    using floor_sqrt_whole[of 250000000] by simp
  have m: "fmul (Fin 5000000) (Fin 50) = Fin 250000000"
    using fmul_whole[of 5000000 50] by (simp add: safe_def)
  have ad: "fadd (Fin 0) (Fin 5000000) = Fin 5000000" "fadd (Fin 0) (Fin 50) = Fin 50"
    "fadd (Fin 0) (Fin 15811) = Fin 15811"
    using fadd_whole[of 0 5000000] fadd_whole[of 0 50] fadd_whole[of 0 15811]
    by (simp_all add: safe_def)
  show ?thesis
    unfolding addLiquidity_def Let_def new_pool_def held_def crwn_btc_def recordPrice_def priceAinB_def
    by (simp add: m sq ad feq_def del: fmul.simps fadd.simps fdiv.simps ffloor.simps fsqrt.simps)
qed

text \<open>
  Claim C7, as stated: \<^verbatim>\<open>addLiquidity(A, B)\<close> followed by \<^verbatim>\<open>removeLiquidity\<close> of the
  shares just minted pays back at least \<open>A - 1\<close> and \<open>B - 1\<close>. It fails on the bootstrapped
  CRWN-USDT pool for a deposit of 800 CRWN and 100 USDT, which is in the ratio of the
  reserves: the deposit mints \<open>min(floor(800 * S / reserveA), floor(100 * S / reserveB)) = 282\<close>
  shares, and the 282 shares pay back 797 CRWN and 99 USDT.
\<close>

theorem add_remove_round_trip_counterexample:
  "lp_shares (fst (addLiquidity crwn_usdt ''alice'' (Fin 800) (Fin 100))) = Fin 282
   \<and> (\<exists>rc2 p2.
         removeLiquidity (snd (addLiquidity crwn_usdt ''alice'' (Fin 800) (Fin 100))) ''alice''
           (lp_shares (fst (addLiquidity crwn_usdt ''alice'' (Fin 800) (Fin 100)))) = (Inr rc2, p2)
       \<and> lp_amountA rc2 = Fin 797 \<and> lp_amountB rc2 = Fin 99)"
proof -
  have rng: "liquidity_in_range 10000000 1250000 3535533 0 800 100"
    by (simp add: liquidity_in_range_def safe_def)
  have a: "(0::int) \<le> 800 * 100" "3535533 = (0::int) \<or> ((10000000::int) \<noteq> 0 \<and> (1250000::int) \<noteq> 0)"
    by simp_all
  note ad = addLiquidity_whole[OF crwn_usdt_fields(1,2) crwn_usdt_shares a rng]
  have sh: "lp_shares (fst (addLiquidity crwn_usdt ''alice'' (whole 800) (whole 100))) = whole 282"
    using ad(1) by simp
  have f1: "reserveA (snd (addLiquidity crwn_usdt ''alice'' (whole 800) (whole 100))) = whole 10000800"
    "reserveB (snd (addLiquidity crwn_usdt ''alice'' (whole 800) (whole 100))) = whole 1250100"
    "totalLpShares (snd (addLiquidity crwn_usdt ''alice'' (whole 800) (whole 100))) = whole 3535815"
    "lpHolders (snd (addLiquidity crwn_usdt ''alice'' (whole 800) (whole 100))) ''alice'' = Some (whole 282)"
    using ad(2-5) by simp_all
  have s: "(282::int) \<le> 282" "(3535815::int) \<noteq> 0" "safe 3535815" "safe (282 * 10000800)"
    "safe (282 * 1250100)" by (simp_all add: safe_def)
  from removeLiquidity_whole[OF f1 s] sh show ?thesis by auto
qed

text \<open>
  Claim C7, amended. For a pool whose reserves and shares are non-negative integers, a
  provider whose holding is a non-negative integer, and integers \<open>A, B \<ge> 1\<close>, when every
  number the two calls compute is a safe integer (of magnitude below \<open>2^53\<close>, the product
  \<open>A * B\<close> of a first deposit below \<open>2^52\<close>): \<^verbatim>\<open>addLiquidity(A, B)\<close> followed by
  \<^verbatim>\<open>removeLiquidity\<close> of the shares just minted succeeds. When the pool had no shares
  outstanding, the deposit mints \<open>floor(sqrt(A * B))\<close> shares and the withdrawal pays back
  the whole of both reserves, hence exactly \<open>(A, B)\<close> on an empty pool. When the pool had
  \<open>S > 0\<close> shares outstanding (and positive reserves), the deposit mints
  \<open>s = min(floor(A * S / reserveA), floor(B * S / reserveB))\<close> shares and the withdrawal pays
  back, of each token, at least \<open>floor(s * reserve / S)\<close>, the worth of the shares before
  the deposit, and at most the amount deposited; of the token whose side limits the shares
  it pays back at least the amount deposited minus \<open>1 + floor((reserve - 2) / S)\<close>, which
  is the claim's \<open>A - 1\<close> when \<open>S \<ge> reserveA - 1\<close>.
\<close>

theorem add_remove_round_trip:
  fixes rA rB S h A B :: int
  assumes fields: "reserveA p = whole rA" "reserveB p = whole rB" "totalLpShares p = whole S"
      "held p provider = whole h"
    and h: "0 \<le> h" and r: "0 \<le> rA" "0 \<le> rB" "0 \<le> S"
    and a: "1 \<le> A" "1 \<le> B"
    and live: "S = 0 \<or> (0 < rA \<and> 0 < rB)"
    and rng: "liquidity_in_range rA rB S h A B"
  shows "\<exists>rc2 p2 pa pb.
           removeLiquidity (snd (addLiquidity p provider (whole A) (whole B))) provider
             (lp_shares (fst (addLiquidity p provider (whole A) (whole B)))) = (Inr rc2, p2)
         \<and> lp_amountA rc2 = whole pa \<and> lp_amountB rc2 = whole pb
         \<and> (if S = 0
            then lp_shares (fst (addLiquidity p provider (whole A) (whole B))) = whole (isqrt (A * B))
                 \<and> pa = rA + A \<and> pb = rB + B
            else lp_shares (fst (addLiquidity p provider (whole A) (whole B)))
                   = whole (min (A * S div rA) (B * S div rB))
                 \<and> min (A * S div rA) (B * S div rB) * rA div S \<le> pa \<and> pa \<le> A
                 \<and> min (A * S div rA) (B * S div rB) * rB div S \<le> pb \<and> pb \<le> B
                 \<and> (A * S div rA \<le> B * S div rB \<longrightarrow> A - 1 - (rA - 2) div S \<le> pa)
                 \<and> (B * S div rB \<le> A * S div rA \<longrightarrow> B - 1 - (rB - 2) div S \<le> pb))"
proof -
  define s where "s = (if S = 0 then isqrt (A * B) else min (A * S div rA) (B * S div rB))"
  have ab: "0 \<le> A * B" "1 \<le> A * B" using a by (simp_all add: mult_le_cancel_left1 order_trans[of 1 A "A * B"])
  have live': "S = 0 \<or> (rA \<noteq> 0 \<and> rB \<noteq> 0)" using live by auto
  note ad = addLiquidity_whole[OF fields ab(1) live' rng, folded s_def]
  note rg = liquidity_in_rangeD[OF rng, folded s_def]
  have s0: "0 \<le> s"
  proof (cases "S = 0")
    case True
    then show ?thesis using isqrt_pos[OF ab(2)] by (simp add: s_def)
  next
    case False
    then have "0 < S" "0 < rA" "0 < rB" using r live by simp_all
    then show ?thesis using a by (simp add: s_def pos_imp_zdiv_nonneg_iff)
  qed
  have Ss: "S + s \<noteq> 0"
  proof (cases "S = 0")
    case True
    then show ?thesis using isqrt_pos[OF ab(2)] by (simp add: s_def)
  next
    case False
    then show ?thesis using r(3) s0 by simp
  qed
  have le: "s \<le> h + s" using h by simp
  from removeLiquidity_whole[OF ad(2,3,4,5) le Ss rg(12) rg(14,15)] ad(1)
  obtain rc2 p2 where rm:
    "removeLiquidity (snd (addLiquidity p provider (whole A) (whole B))) provider
       (lp_shares (fst (addLiquidity p provider (whole A) (whole B)))) = (Inr rc2, p2)"
    "lp_amountA rc2 = whole (s * (rA + A) div (S + s))"
    "lp_amountB rc2 = whole (s * (rB + B) div (S + s))"
    by auto
  show ?thesis
  proof (cases "S = 0")
    case True
    have s1: "s \<noteq> 0" using isqrt_pos[OF ab(2)] True by (simp add: s_def)
    have "s * (rA + A) div (S + s) = rA + A" "s * (rB + B) div (S + s) = rB + B"
      using True s1 by simp_all
    moreover have "lp_shares (fst (addLiquidity p provider (whole A) (whole B))) = whole (isqrt (A * B))"
      using ad(1) True by (simp add: s_def)
    ultimately show ?thesis using rm unfolding if_P[OF True] by (simp only:) blast
  next
    case False
    then have S: "0 < S" and rp: "0 < rA" "0 < rB" using r live by simp_all
    have sd: "s = min (A * S div rA) (B * S div rB)" using False by (simp add: s_def)
    have sa: "s \<le> A * S div rA" and sb: "s \<le> B * S div rB" by (simp_all add: sd)
    have pa: "s * (rA + A) div (S + s) \<le> A" using share_payout_le[OF rp(1) S s0 sa] .
    have pb: "s * (rB + B) div (S + s) \<le> B" using share_payout_le[OF rp(2) S s0 sb] .
    have ga: "s * rA div S \<le> s * (rA + A) div (S + s)" using share_payout_ge[OF rp(1) S s0 sa] .
    have gb: "s * rB div S \<le> s * (rB + B) div (S + s)" using share_payout_ge[OF rp(2) S s0 sb] .
    have la: "A - 1 - (rA - 2) div S \<le> s * (rA + A) div (S + s)" if "A * S div rA \<le> B * S div rB"
    proof -
      have "s = A * S div rA" using that by (simp add: sd)
      with limiting_side_payout[OF rp(1) S, of A] ga show ?thesis by simp
    qed
    have lb: "B - 1 - (rB - 2) div S \<le> s * (rB + B) div (S + s)" if "B * S div rB \<le> A * S div rA"
    proof -
      have "s = B * S div rB" using that by (simp add: sd)
      with limiting_side_payout[OF rp(2) S, of B] gb show ?thesis by simp
    qed
    have sh: "lp_shares (fst (addLiquidity p provider (whole A) (whole B)))
        = whole (min (A * S div rA) (B * S div rB))"
      using ad(1) sd by simp
    define pa where "pa = s * (rA + A) div (S + s)"
    define pb where "pb = s * (rB + B) div (S + s)"
    have body: "lp_shares (fst (addLiquidity p provider (whole A) (whole B)))
                   = whole (min (A * S div rA) (B * S div rB))
                 \<and> min (A * S div rA) (B * S div rB) * rA div S \<le> pa \<and> pa \<le> A
                 \<and> min (A * S div rA) (B * S div rB) * rB div S \<le> pb \<and> pb \<le> B
                 \<and> (A * S div rA \<le> B * S div rB \<longrightarrow> A - 1 - (rA - 2) div S \<le> pa)
                 \<and> (B * S div rB \<le> A * S div rA \<longrightarrow> B - 1 - (rB - 2) div S \<le> pb)"
      unfolding sd[symmetric] pa_def pb_def using sh[folded sd] pa pb ga gb la lb by blast
    have "removeLiquidity (snd (addLiquidity p provider (whole A) (whole B))) provider
             (lp_shares (fst (addLiquidity p provider (whole A) (whole B)))) = (Inr rc2, p2)
         \<and> lp_amountA rc2 = whole pa \<and> lp_amountB rc2 = whole pb"
      using rm by (simp only: pa_def pb_def)
    with body show ?thesis unfolding if_not_P[OF False] by blast
  qed
qed

theorem add_remove_round_trip_witness:
  "reserveA crwn_usdt = whole 10000000 \<and> reserveB crwn_usdt = whole 1250000
   \<and> totalLpShares crwn_usdt = whole 3535533 \<and> held crwn_usdt ''alice'' = whole 0
   \<and> liquidity_in_range 10000000 1250000 3535533 0 800 100
   \<and> (\<exists>rc2 p2 pa pb.
         removeLiquidity (snd (addLiquidity crwn_usdt ''alice'' (whole 800) (whole 100))) ''alice''
           (lp_shares (fst (addLiquidity crwn_usdt ''alice'' (whole 800) (whole 100)))) = (Inr rc2, p2)
       \<and> lp_amountA rc2 = whole pa \<and> lp_amountB rc2 = whole pb
       \<and> 797 \<le> pa \<and> pa \<le> 800 \<and> 99 \<le> pb \<and> pb \<le> 100)
   \<and> liquidity_in_range 0 0 0 0 4 9
   \<and> (\<exists>rc2 p2.
         removeLiquidity (snd (addLiquidity (new_pool ''CRWN'' ''USDT'' (Fin 30)) ''alice'' (whole 4) (whole 9)))
           ''alice''
           (lp_shares (fst (addLiquidity (new_pool ''CRWN'' ''USDT'' (Fin 30)) ''alice'' (whole 4) (whole 9))))
           = (Inr rc2, p2)
       \<and> lp_amountA rc2 = whole 4 \<and> lp_amountB rc2 = whole 9)"
proof -
  have h: "(0::int) \<le> 0" "(0::int) \<le> 10000000" "(0::int) \<le> 1250000" "(0::int) \<le> 3535533"
    "(1::int) \<le> 800" "(1::int) \<le> 100"
    "(3535533::int) = 0 \<or> ((0::int) < 10000000 \<and> (0::int) < 1250000)"
    by simp_all
  have rng: "liquidity_in_range 10000000 1250000 3535533 0 800 100"
    by (simp add: liquidity_in_range_def safe_def)
  have g: "(0::int) \<le> 0" "(0::int) \<le> 0" "(0::int) \<le> 0" "(0::int) \<le> 0" "(1::int) \<le> 4" "(1::int) \<le> 9"
    "(0::int) = 0 \<or> ((0::int) < 0 \<and> (0::int) < 0)"
    by simp_all
  have sq: "isqrt 36 = 6" by code_simp
  have rng0: "liquidity_in_range 0 0 0 0 4 9"
    by (simp add: liquidity_in_range_def safe_def sq)
  from add_remove_round_trip[OF crwn_usdt_fields(1,2) crwn_usdt_shares h rng]
  obtain rc2 p2 pa pb where 1:
    "removeLiquidity (snd (addLiquidity crwn_usdt ''alice'' (whole 800) (whole 100))) ''alice''
       (lp_shares (fst (addLiquidity crwn_usdt ''alice'' (whole 800) (whole 100)))) = (Inr rc2, p2)"
    "lp_amountA rc2 = whole pa" "lp_amountB rc2 = whole pb"
    "797 \<le> pa" "pa \<le> 800" "99 \<le> pb" "pb \<le> 100"
    by auto
  from add_remove_round_trip[OF new_pool_fields g rng0, of "''CRWN''" "''USDT''" "Fin 30" "''alice''"]
  obtain rc3 p3 where 2:
    "removeLiquidity (snd (addLiquidity (new_pool ''CRWN'' ''USDT'' (Fin 30)) ''alice'' (whole 4) (whole 9)))
       ''alice''
       (lp_shares (fst (addLiquidity (new_pool ''CRWN'' ''USDT'' (Fin 30)) ''alice'' (whole 4) (whole 9))))
       = (Inr rc3, p3)"
    "lp_amountA rc3 = whole 4" "lp_amountB rc3 = whole 9"
    by auto
  have a: "\<exists>rc2 p2 pa pb.
         removeLiquidity (snd (addLiquidity crwn_usdt ''alice'' (whole 800) (whole 100))) ''alice''
           (lp_shares (fst (addLiquidity crwn_usdt ''alice'' (whole 800) (whole 100)))) = (Inr rc2, p2)
       \<and> lp_amountA rc2 = whole pa \<and> lp_amountB rc2 = whole pb
       \<and> 797 \<le> pa \<and> pa \<le> 800 \<and> 99 \<le> pb \<and> pb \<le> 100"
    using 1 by blast
  have b: "\<exists>rc2 p2.
         removeLiquidity (snd (addLiquidity (new_pool ''CRWN'' ''USDT'' (Fin 30)) ''alice'' (whole 4) (whole 9)))
           ''alice''
           (lp_shares (fst (addLiquidity (new_pool ''CRWN'' ''USDT'' (Fin 30)) ''alice'' (whole 4) (whole 9))))
           = (Inr rc2, p2)
       \<and> lp_amountA rc2 = whole 4 \<and> lp_amountB rc2 = whole 9"
    using 2 by blast
  from a b rng rng0 crwn_usdt_fields(1,2) crwn_usdt_shares show ?thesis by (intro conjI)
qed

section \<open>The order book\<close>

lemma fill_pair_untouched:
  "i \<noteq> b \<Longrightarrow> i \<noteq> s \<Longrightarrow> fst (fill_pair os b s) ! i = os ! i"
  "length (fst (fill_pair os b s)) = length os"
  by (simp_all add: fill_pair_def Let_def)

lemma match_sells_Cons_fst:
  "fst (match_sells os b (s # ss)) = fst (match_sells (fst (fill_pair os b s)) b ss)"
  by (auto split: prod.splits)

lemma match_buys_Cons_fst:
  "fst (match_buys os (b # bs) ss) = fst (match_buys (fst (match_sells os b ss)) bs ss)"
  by (auto split: prod.splits)

lemma match_sells_untouched:
  "i \<noteq> b \<Longrightarrow> i \<notin> set ss \<Longrightarrow> fst (match_sells os b ss) ! i = os ! i"
proof (induction ss arbitrary: os)
  case Nil
  then show ?case by simp
next
  case (Cons s ss)
  then have "fst (match_sells (fst (fill_pair os b s)) b ss) ! i = fst (fill_pair os b s) ! i"
    by simp
  also have "\<dots> = os ! i" using Cons.prems by (simp add: fill_pair_untouched)
  finally show ?case by (simp only: match_sells_Cons_fst)
qed

lemma match_sells_length: "length (fst (match_sells os b ss)) = length os"
proof (induction ss arbitrary: os)
  case Nil
  then show ?case by simp
next
  case (Cons s ss)
  have "length (fst (match_sells (fst (fill_pair os b s)) b ss)) = length (fst (fill_pair os b s))"
    by (rule Cons.IH)
  then show ?case by (simp only: match_sells_Cons_fst fill_pair_untouched)
qed

lemma match_buys_untouched:
  "i \<notin> set bs \<Longrightarrow> i \<notin> set ss \<Longrightarrow> fst (match_buys os bs ss) ! i = os ! i"
proof (induction bs arbitrary: os)
  case Nil
  then show ?case by simp
next
  case (Cons b bs)
  then have "fst (match_buys (fst (match_sells os b ss)) bs ss) ! i = fst (match_sells os b ss) ! i"
    by simp
  also have "\<dots> = os ! i" using Cons.prems by (simp add: match_sells_untouched)
  finally show ?case by (simp only: match_buys_Cons_fst)
qed

lemma match_buys_length: "length (fst (match_buys os bs ss)) = length os"
proof (induction bs arbitrary: os)
  case Nil
  then show ?case by simp
next
  case (Cons b bs)
  have "length (fst (match_buys (fst (match_sells os b ss)) bs ss)) = length (fst (match_sells os b ss))"
    by (rule Cons.IH)
  then show ?case by (simp only: match_buys_Cons_fst match_sells_length)
qed

lemma open_side_status: "i \<in> set (open_side os pl sd) \<Longrightarrow> status (os ! i) = Open"
  by (simp add: open_side_def)

lemma match_orders:
  "orders (snd (match ob pl)) =
     fst (match_buys (orders ob)
            (sort_key (\<lambda>i. - price (orders ob ! i)) (open_side (orders ob) pl ''buy''))
            (sort_key (\<lambda>i. price (orders ob ! i)) (open_side (orders ob) pl ''sell'')))"
  by (simp add: match_def Let_def split: prod.splits)

lemma match_untouched:
  assumes "status (orders ob ! i) \<noteq> Open"
  shows "orders (snd (match ob pl)) ! i = orders ob ! i"
proof -
  have "i \<notin> set (open_side (orders ob) pl ''buy'')" "i \<notin> set (open_side (orders ob) pl ''sell'')"
    using assms open_side_status by blast+
  then show ?thesis by (simp add: match_orders match_buys_untouched)
qed

lemma match_length: "length (orders (snd (match ob pl))) = length (orders ob)"
  by (simp add: match_orders match_buys_length)

text \<open>The example books are states that \<^verbatim>\<open>place\<close> and \<^verbatim>\<open>match\<close> produce.\<close>

lemma partial_book_reached:
  "snd (place (snd (match (snd (place (snd (place new_order_book
       ''alice'' ''CRWN-USDT'' ''buy'' 10 10)) ''bob'' ''CRWN-USDT'' ''sell'' 10 4)) ''CRWN-USDT''))
       ''carol'' ''CRWN-USDT'' ''sell'' 9 5) = partial_book"
  by code_simp

lemma crossing_book_reached:
  "snd (place (snd (place new_order_book ''alice'' ''CRWN-USDT'' ''buy'' 10 5))
       ''bob'' ''CRWN-USDT'' ''sell'' 10 5) = crossing_book"
  by code_simp

text \<open>
  Claim C10. \<^verbatim>\<open>match(poolId)\<close> selects the orders whose status is \<open>open\<close> when the call
  starts, and writes to no other order: an order whose status is not \<open>open\<close>, such as one
  left \<open>partial\<close> by an earlier call, is the same record after the call as before it, whatever
  its remaining amount and its price, and the book keeps its length; so it is after any
  number of calls.
\<close>

theorem match_skips_non_open:
  assumes "i < length (orders ob)" and "status (orders ob ! i) \<noteq> Open"
  shows "orders (snd (match ob pl)) ! i = orders ob ! i
       \<and> length (orders (snd (match ob pl))) = length (orders ob)
       \<and> orders (((\<lambda>b. snd (match b pl)) ^^ n) ob) ! i = orders ob ! i"
proof -
  have "orders (((\<lambda>b. snd (match b pl)) ^^ n) ob) ! i = orders ob ! i"
  proof (induction n)
    case 0
    then show ?case by simp
  next
    case (Suc n)
    then have "status (orders (((\<lambda>b. snd (match b pl)) ^^ n) ob) ! i) \<noteq> Open"
      using assms(2) by simp
    then have "orders (snd (match (((\<lambda>b. snd (match b pl)) ^^ n) ob) pl)) ! i =
        orders (((\<lambda>b. snd (match b pl)) ^^ n) ob) ! i"
      by (rule match_untouched)
    with Suc show ?case by simp
  qed
  then show ?thesis
    using assms(2) by (simp add: match_untouched match_length)
qed

theorem match_skips_non_open_witness:
  "0 < length (orders partial_book)
   \<and> status (orders partial_book ! 0) = Partial
   \<and> filled (orders partial_book ! 0) < amount (orders partial_book ! 0)
   \<and> price (orders partial_book ! 2) \<le> price (orders partial_book ! 0)
   \<and> status (orders partial_book ! 2) = Open
   \<and> orders (snd (match partial_book ''CRWN-USDT'')) ! 0 = orders partial_book ! 0
   \<and> length (orders (snd (match partial_book ''CRWN-USDT''))) = 3"
proof -
  have h: "0 < length (orders partial_book)" "status (orders partial_book ! 0) \<noteq> Open"
    by (simp_all add: partial_book_def)
  have g: "status (orders partial_book ! 0) = Partial"
    "filled (orders partial_book ! 0) < amount (orders partial_book ! 0)"
    "price (orders partial_book ! 2) \<le> price (orders partial_book ! 0)"
    "status (orders partial_book ! 2) = Open" "length (orders partial_book) = 3"
    by (simp_all add: partial_book_def)
  from match_skips_non_open[OF h, of "''CRWN-USDT''" 0] g show ?thesis by simp
qed

text \<open>
  Claim C9 says that \<open>filled\<close> and \<open>cancelled\<close> are terminal, so that no operation,
  \<^verbatim>\<open>cancel\<close> included, changes the status of an order that is filled. \<^verbatim>\<open>match\<close> keeps
  to this (it selects open orders only), \<^verbatim>\<open>cancel\<close> does not: it looks the order up by id
  and writes \<open>cancelled\<close> without reading the status. A buy and a sell of 5 at price 10 fill
  each other; \<^verbatim>\<open>cancel\<close> of the buy then turns the filled order into a cancelled one.
\<close>

theorem cancel_overwrites_filled:
  "orders (snd (match crossing_book ''CRWN-USDT'')) ! 0 =
     \<lparr>oid = 0, owner = ''alice'', poolId = ''CRWN-USDT'', side = ''buy'', price = 10,
      amount = 5, filled = 5, status = Filled, trit = 1\<rparr>
   \<and> orders (cancel (snd (match crossing_book ''CRWN-USDT'')) 0) ! 0 =
     \<lparr>oid = 0, owner = ''alice'', poolId = ''CRWN-USDT'', side = ''buy'', price = 10,
      amount = 5, filled = 5, status = Cancelled, trit = - 1\<rparr>"
  by code_simp

section \<open>Wallets\<close>

text \<open>
  \<^verbatim>\<open>lockBalance\<close> checks the amount against \<open>balance - locked\<close>, so that a successful
  lock leaves \<open>balance - locked \<ge> 0\<close>.
\<close>

lemma find_map_wallet:
  assumes "\<And>r. wallet_of u t (g r) = wallet_of u t r"
  shows "find (wallet_of u t) (map (\<lambda>r. if wallet_of u t r then g r else r) rs) =
           map_option g (find (wallet_of u t) rs)"
  using assms by (induction rs) simp_all

lemma lockBalance_keeps_available:
  assumes "lockBalance d u t a = Inr d'"
  shows "0 \<le> available d' u t"
proof -
  have ok: "\<not> fst (getBalance d u t) - snd (getBalance d u t) < a"
    and d': "d' = d\<lparr>wallets := map (\<lambda>r. if wallet_of u t r then r\<lparr>locked := locked r + a\<rparr> else r)
                                  (wallets d)\<rparr>"
    using assms by (auto simp: lockBalance_def split: if_splits)
  have f: "find (wallet_of u t) (wallets d') =
             map_option (\<lambda>r. r\<lparr>locked := locked r + a\<rparr>) (find (wallet_of u t) (wallets d))"
  proof -
    have "\<And>r. wallet_of u t (r\<lparr>locked := locked r + a\<rparr>) = wallet_of u t r"
      by (simp add: wallet_of_def)
    from find_map_wallet[of u t "\<lambda>r. r\<lparr>locked := locked r + a\<rparr>" "wallets d", OF this]
    show ?thesis unfolding d' by simp
  qed
  show ?thesis
    using ok by (cases "find (wallet_of u t) (wallets d)") (simp_all add: available_def getBalance_def f)
qed

text \<open>
  A credit adds the amount to \<open>balance - locked\<close>; a successful debit takes the amount
  from it, having compared the amount with the balance and not with \<open>balance - locked\<close>.
\<close>

lemma find_append_wallet:
  "find P xs = None \<Longrightarrow> find P (xs @ [x]) = (if P x then Some x else None)"
  by (induction xs) (simp_all split: if_splits)

lemma getBalance_setBalance:
  "getBalance (setBalance d u t b) u t = (b, snd (getBalance d u t))"
proof (cases "find (wallet_of u t) (wallets d)")
  case None
  then show ?thesis
    by (simp add: getBalance_def setBalance_def find_append_wallet wallet_of_def)
next
  case (Some r)
  have "\<And>r. wallet_of u t (r\<lparr>balance := b\<rparr>) = wallet_of u t r"
    by (simp add: wallet_of_def)
  from find_map_wallet[of u t "\<lambda>r. r\<lparr>balance := b\<rparr>" "wallets d", OF this] Some
  show ?thesis by (simp add: getBalance_def setBalance_def)
qed

lemma addBalance_available:
  "available (addBalance d u t a) u t = available d u t + a"
  by (simp add: available_def addBalance_def getBalance_setBalance)

lemma subtractBalance_available:
  assumes "subtractBalance d u t a = Inr d'"
  shows "available d' u t = available d u t - a" and "a \<le> fst (getBalance d u t)"
  using assms
  by (auto simp: subtractBalance_def available_def getBalance_setBalance split: if_splits)

text \<open>
  Claim C2 says that after every successful wallet mutation \<open>balance - locked \<ge> 0\<close>, and
  that a successful \<^verbatim>\<open>subtractBalance\<close> never takes the balance below the locked
  amount. \<^verbatim>\<open>subtractBalance\<close> checks the amount against \<open>balance\<close> alone, where
  \<^verbatim>\<open>lockBalance\<close> checks it against \<open>balance - locked\<close>: with 10 USDT of which 5 are
  locked, a debit of 8 succeeds and leaves a balance of 2 with 5 locked.
\<close>

theorem subtractBalance_below_locked:
  "lockBalance wallet_free ''alice'' ''USDT'' 5 = Inr wallet_locked
   \<and> available wallet_locked ''alice'' ''USDT'' = 5
   \<and> subtractBalance wallet_locked ''alice'' ''USDT'' 8 =
       Inr \<lparr>wallets = [\<lparr>w_user = ''alice'', w_token = ''USDT'', balance = 2, locked = 5\<rparr>],
            auto_trade_config = [], exchange_orders = []\<rparr>
   \<and> available \<lparr>wallets = [\<lparr>w_user = ''alice'', w_token = ''USDT'', balance = 2, locked = 5\<rparr>],
            auto_trade_config = [], exchange_orders = []\<rparr> ''alice'' ''USDT'' = - 3"
  by (simp add: lockBalance_def subtractBalance_def setBalance_def getBalance_def available_def
        wallet_free_def wallet_locked_def wallet_of_def)

section \<open>The safety gate of the executor\<close>









lemma checkSafety_None:
  "getAutoTradeConfig d u e = None \<Longrightarrow> checkSafety d u e sd q pr = (True, [])"
  by (simp add: checkSafety_def)








section \<open>The rate limit of the gateway\<close>

lemma checkRateLimit_in_window:
  assumes "rl u = Some l" and "now \<le> resetAt l"
  shows "checkRateLimit now rl u = (count l + 1 \<le> 100, rl(u \<mapsto> l\<lparr>count := count l + 1\<rparr>))"
  using assms by (simp add: checkRateLimit_def RATE_LIMIT_def Let_def)

lemma checkRateLimit_new_window:
  assumes "rl u = None \<or> (\<exists>l. rl u = Some l \<and> resetAt l < now)"
  shows "checkRateLimit now rl u = (True, rl(u \<mapsto> \<lparr>count = 1, resetAt = now + 60000\<rparr>))"
  using assms by (auto simp: checkRateLimit_def RATE_LIMIT_def RATE_WINDOW_def Let_def)

lemma route_rate_limit_in_window:
  assumes "rl u = Some l" and "now \<le> resetAt l"
  shows "route_rate_limit now rl u = (verdict (count l + 1), rl(u \<mapsto> l\<lparr>count := count l + 1\<rparr>))"
  using assms checkRateLimit_in_window[of rl u l now]
  by (simp add: route_rate_limit_def)

lemma route_rate_limit_new_window:
  assumes "rl u = None \<or> (\<exists>l. rl u = Some l \<and> resetAt l < now)"
  shows "route_rate_limit now rl u = (Inr (), rl(u \<mapsto> \<lparr>count = 1, resetAt = now + 60000\<rparr>))"
  using assms checkRateLimit_new_window[of rl u now] by (simp add: route_rate_limit_def)

lemma route_calls_in_window:
  assumes "rl u = Some l" and "\<forall>t \<in> set ts. t \<le> resetAt l"
  shows "route_calls rl u ts =
           (map (\<lambda>i. verdict (count l + 1 + int i)) [0..<length ts],
            rl(u \<mapsto> l\<lparr>count := count l + int (length ts)\<rparr>))"
  using assms
proof (induction ts arbitrary: rl l)
  case Nil
  then show ?case by (simp add: fun_upd_idem)
next
  case (Cons t ts)
  let ?l1 = "l\<lparr>count := count l + 1\<rparr>"
  let ?rl1 = "rl(u \<mapsto> ?l1)"
  have step: "route_rate_limit t rl u = (verdict (count l + 1), ?rl1)"
    using Cons.prems by (simp add: route_rate_limit_in_window)
  have "?rl1 u = Some ?l1" by simp
  moreover have "\<forall>t \<in> set ts. t \<le> resetAt ?l1" using Cons.prems by simp
  ultimately have rest: "route_calls ?rl1 u ts =
      (map (\<lambda>i. verdict (count ?l1 + 1 + int i)) [0..<length ts],
       ?rl1(u \<mapsto> ?l1\<lparr>count := count ?l1 + int (length ts)\<rparr>))"
    by (rule Cons.IH)
  have idx: "[0..<length (t # ts)] = 0 # map Suc [0..<length ts]"
    by (simp add: upt_conv_Cons map_Suc_upt del: upt_Suc)
  have unfold: "route_calls rl u (t # ts) =
      (verdict (count l + 1) # fst (route_calls ?rl1 u ts), snd (route_calls ?rl1 u ts))"
    by (simp add: step split: prod.splits)
  have res: "verdict (count l + 1) # map (\<lambda>i. verdict (count ?l1 + 1 + int i)) [0..<length ts] =
      map (\<lambda>i. verdict (count l + 1 + int i)) [0..<length (t # ts)]"
    unfolding idx by (simp add: o_def algebra_simps)
  have st: "?rl1(u \<mapsto> ?l1\<lparr>count := count ?l1 + int (length ts)\<rparr>) =
      rl(u \<mapsto> l\<lparr>count := count l + int (length (t # ts))\<rparr>)"
    by (simp add: algebra_simps)
  show ?case
    unfolding unfold rest fst_conv snd_conv res st ..
qed

text \<open>
  Claim C6, as stated: once 60 seconds have elapsed since the window started, the counter
  resets and calls are admitted again. The window is reset when \<^verbatim>\<open>now > limit.resetAt\<close>,
  with \<open>resetAt\<close> the start plus 60000 ms: a call exactly 60000 ms after the start still
  counts in the old window. After 100 calls at time 0, the call at time 60000 is refused.
\<close>

theorem rate_limit_reset_counterexample:
  "fst (route_calls Map.empty ''alice'' (replicate 100 0 @ [60000])) ! 99 = Inr ()
   \<and> fst (route_calls Map.empty ''alice'' (replicate 100 0 @ [60000])) ! 100 = Inl RateLimited"
proof -
  have e: "replicate 100 (0::int) @ [60000] = 0 # (replicate 99 0 @ [60000])"
    by (simp add: numeral_eq_Suc)
  let ?l = "\<lparr>count = 1, resetAt = 60000\<rparr>"
  have first: "route_rate_limit 0 Map.empty ''alice'' = (Inr (), [''alice'' \<mapsto> ?l])"
    using route_rate_limit_new_window[of Map.empty "''alice''" 0] by simp
  have rest: "route_calls [''alice'' \<mapsto> ?l] ''alice'' (replicate 99 0 @ [60000]) =
      (map (\<lambda>i. verdict (count ?l + 1 + int i)) [0..<length (replicate 99 (0::int) @ [60000])],
       [''alice'' \<mapsto> ?l](''alice'' \<mapsto> ?l\<lparr>count := count ?l + int (length (replicate 99 (0::int) @ [60000]))\<rparr>))"
    using route_calls_in_window[of "[''alice'' \<mapsto> ?l]" "''alice''" ?l "replicate 99 0 @ [60000]"]
    by simp
  have "fst (route_calls Map.empty ''alice'' (0 # (replicate 99 0 @ [60000]))) =
          Inr () # map (\<lambda>i. verdict (2 + int i)) [0..<100]"
    by (simp add: first rest)
  then show ?thesis unfolding e by (simp del: upt_Suc)
qed

text \<open>
  Claim C6, amended. For a principal with no window, or with a window that has expired, a
  call at time \<open>t0\<close> opens a window; of the calls of that principal at times up to and
  including \<open>t0 + 60000\<close> ms, the first 100 (the opening call included) pass the rate check
  and the 101st and all later ones raise \<open>RATE_LIMITED\<close>; a call later than \<open>t0 + 60000\<close> ms
  is admitted again and opens a new window.
\<close>

theorem rate_limit_window:
  assumes "rl u = None \<or> (\<exists>l. rl u = Some l \<and> resetAt l < t0)"
    and "\<forall>t \<in> set ts. t \<le> t0 + 60000"
  shows "fst (route_calls rl u (t0 # ts)) =
           map (\<lambda>i. if i < 100 then Inr () else Inl RateLimited) [0..<Suc (length ts)]
       \<and> (\<forall>t'. t0 + 60000 < t' \<longrightarrow>
             fst (route_rate_limit t' (snd (route_calls rl u (t0 # ts))) u) = Inr ())"
proof -
  let ?l = "\<lparr>count = 1, resetAt = t0 + 60000\<rparr>"
  let ?rl1 = "rl(u \<mapsto> ?l)"
  have first: "route_rate_limit t0 rl u = (Inr (), ?rl1)"
    using assms(1) route_rate_limit_new_window[of rl u t0] by simp
  have rest: "route_calls ?rl1 u ts =
      (map (\<lambda>i. verdict (count ?l + 1 + int i)) [0..<length ts],
       ?rl1(u \<mapsto> ?l\<lparr>count := count ?l + int (length ts)\<rparr>))"
    using assms(2) route_calls_in_window[of ?rl1 u ?l ts] by simp
  have idx: "[0..<Suc (length ts)] = 0 # map Suc [0..<length ts]"
    by (simp add: upt_conv_Cons map_Suc_upt del: upt_Suc)
  have a: "fst (route_calls rl u (t0 # ts)) =
           map (\<lambda>i. if i < 100 then Inr () else Inl RateLimited) [0..<Suc (length ts)]"
    unfolding idx by (auto simp: first rest o_def)
  have b: "fst (route_rate_limit t' (snd (route_calls rl u (t0 # ts))) u) = Inr ()"
    if "t0 + 60000 < t'" for t'
  proof -
    have "snd (route_calls rl u (t0 # ts)) u = Some (?l\<lparr>count := count ?l + int (length ts)\<rparr>)"
      by (simp add: first rest)
    then have "\<exists>l. snd (route_calls rl u (t0 # ts)) u = Some l \<and> resetAt l < t'"
      using that by simp
    then show ?thesis
      using route_rate_limit_new_window[of "snd (route_calls rl u (t0 # ts))" u t'] by simp
  qed
  from a b show ?thesis by blast
qed

theorem rate_limit_window_witness:
  "fst (route_calls Map.empty ''alice'' (0 # replicate 100 59999)) ! 99 = Inr ()
   \<and> fst (route_calls Map.empty ''alice'' (0 # replicate 100 59999)) ! 100 = Inl RateLimited
   \<and> fst (route_rate_limit 60001 (snd (route_calls Map.empty ''alice'' (0 # replicate 100 59999)))
          ''alice'') = Inr ()"
proof -
  have h: "Map.empty ''alice'' = None \<or> (\<exists>l. Map.empty ''alice'' = Some l \<and> resetAt l < 0)"
    "\<forall>t \<in> set (replicate 100 (59999::int)). t \<le> 0 + 60000"
    by simp_all
  from rate_limit_window[OF h]
  have a: "fst (route_calls Map.empty ''alice'' (0 # replicate 100 59999)) =
           map (\<lambda>i. if i < 100 then Inr () else Inl RateLimited) [0..<Suc (length (replicate 100 (59999::int)))]"
    and b: "fst (route_rate_limit 60001 (snd (route_calls Map.empty ''alice'' (0 # replicate 100 59999)))
          ''alice'') = Inr ()"
    by simp_all
  show ?thesis unfolding a using b by (simp del: upt_Suc)
qed

end
